theory Spec2Isabelle
  imports Main "HOL-Library.Word" "HOL-Library.Multiset" "HOL-Library.Signed_Division"
begin

section \<open>corsarowdcap: parallel capture with a chronological merge\<close>

text \<open>
  The development follows the capture program: each processing thread writes its packets
  to an interim file per interval and reports the end of an interval to the merging
  thread; once every thread has reported an interval, the merging thread combines the
  interim files into one output file in timestamp order, writes the optional statistics
  file and the \<open>.done\<close> marker, and deletes the interim files.
\<close>

subsection \<open>Interim readers\<close>

text \<open>
  A packet carries its ERF timestamp (64 bits, compared as an unsigned number) and a
  number standing for its captured bytes.
\<close>

record packet =
  erf_ts :: "64 word"
  payload :: nat

datatype interim_status =
    CORSARO_WDCAP_INTERIM_NOPACKET
  | CORSARO_WDCAP_INTERIM_PACKET
  | CORSARO_WDCAP_INTERIM_EOF

text \<open>
  The fields of one entry of \<open>mergestate->readers\<close>. A pointer that may be \<open>NULL\<close> is an
  option: \<open>source = None\<close> is a reader that could not be created, \<open>Some ps\<close> is a reader
  that will still deliver the packets \<open>ps\<close>; \<open>nextp = None\<close> is no packet buffer,
  \<open>Some None\<close> an allocated buffer that holds no packet, \<open>Some (Some p)\<close> a buffer
  that holds \<open>p\<close>.
\<close>

record interim_reader =
  uri :: "string option"
  source :: "packet list option"
  nextp :: "packet option option"
  nextp_ts :: "64 word"
  status :: interim_status

text \<open>
  Modelled from the spec: \<open>corsaro_read_next_packet\<close> belongs to the trace library of
  the repository (\<open>libcorsaro_trace\<close>). The reader yields the packets of
  its file one after the other; the result is positive when a packet was stored in the
  buffer, 0 at the end of the file and negative on an error (here: no reader or no
  buffer to read into).
\<close>

definition corsaro_read_next_packet ::
  "packet list option \<Rightarrow> packet option option \<Rightarrow> int \<times> packet list option \<times> packet option option"
where
  "corsaro_read_next_packet src buf =
     (case src of
        None \<Rightarrow> (-1, src, buf)
      | Some [] \<Rightarrow> (0, src, buf)
      | Some (p # ps) \<Rightarrow>
          (case buf of None \<Rightarrow> (-1, src, buf) | Some b \<Rightarrow> (1, Some ps, Some (Some p))))"

text \<open>
  Modelled from the spec: \<open>trace_get_erf_timestamp\<close> is the capture library's; it gives
  the timestamp of the packet in the buffer (0 here when the buffer holds none, which
  the merge never asks for).
\<close>

definition trace_get_erf_timestamp :: "packet option option \<Rightarrow> 64 word" where
  "trace_get_erf_timestamp buf = (case buf of Some (Some p) \<Rightarrow> erf_ts p | _ \<Rightarrow> 0)"

text \<open>
  The first half of the body of the scan in \<open>choose_next_merge_packet\<close>: a reader at the
  end of its file is left alone, a reader whose packet has been used reads the next one
  and is flagged as finished when there is none.
\<close>

definition refill :: "interim_reader \<Rightarrow> interim_reader" where
  "refill r =
     (if status r = CORSARO_WDCAP_INTERIM_EOF then r
      else if status r = CORSARO_WDCAP_INTERIM_NOPACKET then
        (case corsaro_read_next_packet (source r) (nextp r) of
           (ret, src', buf') \<Rightarrow>
             if ret \<le> 0 then r\<lparr>status := CORSARO_WDCAP_INTERIM_EOF\<rparr>
             else r\<lparr>source := src', nextp := buf',
                    nextp_ts := trace_get_erf_timestamp buf',
                    status := CORSARO_WDCAP_INTERIM_PACKET\<rparr>)
      else r)"

text \<open>
  One round of the \<open>for\<close> loop, on the readers and \<open>candind\<close> (\<open>-1\<close>: no candidate yet).
  The two \<open>continue\<close>s for a finished reader are the first branch; the strict comparison
  keeps the earlier reader when two timestamps are equal.
\<close>

definition choose_step :: "nat \<Rightarrow> interim_reader list \<times> int \<Rightarrow> interim_reader list \<times> int" where
  "choose_step i st =
     (case st of (rs, candind) \<Rightarrow>
        let rs' = rs[i := refill (rs ! i)] in
        if status (rs' ! i) = CORSARO_WDCAP_INTERIM_EOF then (rs', candind)
        else if candind = -1 then (rs', int i)
        else if nextp_ts (rs' ! i) < nextp_ts (rs' ! nat candind) then (rs', int i)
        else (rs', candind))"

definition choose_next_merge_packet :: "interim_reader list \<Rightarrow> nat \<Rightarrow> interim_reader list \<times> int" where
  "choose_next_merge_packet rs inpcount = fold choose_step [0..<inpcount] (rs, -1)"

text \<open>A reader has a packet left when one is buffered or the next read delivers one.\<close>

definition has_packet :: "interim_reader \<Rightarrow> bool" where
  "has_packet r =
     (case status r of
        CORSARO_WDCAP_INTERIM_PACKET \<Rightarrow> True
      | CORSARO_WDCAP_INTERIM_EOF \<Rightarrow> False
      | CORSARO_WDCAP_INTERIM_NOPACKET \<Rightarrow>
          0 < fst (corsaro_read_next_packet (source r) (nextp r)))"

subsection \<open>The scan returns the earliest buffered packet\<close>

lemma refill_not_nopacket: "status (refill r) \<noteq> CORSARO_WDCAP_INTERIM_NOPACKET"
  by (cases "status r") (auto simp: refill_def split: prod.splits)

lemma refill_eof_iff: "status (refill r) = CORSARO_WDCAP_INTERIM_EOF \<longleftrightarrow> \<not> has_packet r"
  by (cases "status r") (auto simp: refill_def has_packet_def split: prod.splits)

lemma refill_packet_iff: "status (refill r) = CORSARO_WDCAP_INTERIM_PACKET \<longleftrightarrow> has_packet r"
  using refill_eof_iff [of r] refill_not_nopacket [of r] by (cases "status (refill r)") auto

definition refilled_upto :: "nat \<Rightarrow> interim_reader list \<Rightarrow> interim_reader list" where
  "refilled_upto k rs = map refill (take k rs) @ drop k rs"

lemma refilled_upto_nth:
  "i < length rs \<Longrightarrow> refilled_upto k rs ! i = (if i < k then refill (rs ! i) else rs ! i)"
  by (simp add: refilled_upto_def nth_append min_def)

lemma length_refilled_upto: "length (refilled_upto k rs) = length rs"
  by (simp add: refilled_upto_def)

lemma refilled_upto_Suc:
  assumes "k < length rs"
  shows "(refilled_upto k rs)[k := refill (refilled_upto k rs ! k)] = refilled_upto (Suc k) rs"
proof (rule nth_equalityI)
  show "length ((refilled_upto k rs)[k := refill (refilled_upto k rs ! k)]) = length (refilled_upto (Suc k) rs)"
    by (simp add: length_refilled_upto)
next
  fix i assume "i < length ((refilled_upto k rs)[k := refill (refilled_upto k rs ! k)])"
  then have i: "i < length rs" by (simp add: length_refilled_upto)
  show "(refilled_upto k rs)[k := refill (refilled_upto k rs ! k)] ! i = refilled_upto (Suc k) rs ! i"
    using i assms by (cases "i = k") (simp_all add: refilled_upto_nth length_refilled_upto less_Suc_eq)
qed

definition earliest :: "interim_reader list \<Rightarrow> nat \<Rightarrow> int \<Rightarrow> bool" where
  "earliest rs k c \<longleftrightarrow>
     (if \<forall>i<k. \<not> has_packet (rs ! i) then c = -1
      else 0 \<le> c \<and> nat c < k \<and> has_packet (rs ! nat c) \<and>
           (\<forall>i<k. has_packet (rs ! i) \<longrightarrow> nextp_ts (refill (rs ! nat c)) \<le> nextp_ts (refill (rs ! i))) \<and>
           (\<forall>i<nat c. has_packet (rs ! i) \<longrightarrow> nextp_ts (refill (rs ! nat c)) < nextp_ts (refill (rs ! i))))"

lemma choose_fold_inv:
  "k \<le> length rs \<Longrightarrow>
   \<exists>c. fold choose_step [0..<k] (rs, -1) = (refilled_upto k rs, c) \<and> earliest rs k c"
proof (induction k)
  case 0
  then show ?case by (simp add: refilled_upto_def earliest_def)
next
  case (Suc k)
  then obtain c where c: "fold choose_step [0..<k] (rs, -1) = (refilled_upto k rs, c)" "earliest rs k c"
    by auto
  have k: "k < length rs" using Suc.prems by simp
  let ?R = "refilled_upto (Suc k) rs"
  have Rk: "?R ! k = refill (rs ! k)" using k by (simp add: refilled_upto_nth)
  have step: "fold choose_step [0..<Suc k] (rs, -1) = choose_step k (refilled_upto k rs, c)"
    using c by simp
  show ?case
  proof (cases "has_packet (rs ! k)")
    case False
    then have "choose_step k (refilled_upto k rs, c) = (?R, c)"
      using k by (simp add: choose_step_def refilled_upto_Suc Rk refill_eof_iff Let_def)
    moreover have "earliest rs (Suc k) c"
      using c(2) False by (auto simp: earliest_def less_Suc_eq)
    ultimately show ?thesis using step by simp
  next
    case True
    then have neof: "status (?R ! k) \<noteq> CORSARO_WDCAP_INTERIM_EOF"
      by (simp add: Rk refill_eof_iff)
    show ?thesis
    proof (cases "c = -1")
      case c1: True
      then have "choose_step k (refilled_upto k rs, c) = (?R, int k)"
        using k neof by (simp add: choose_step_def refilled_upto_Suc Let_def)
      moreover have "\<forall>i<k. \<not> has_packet (rs ! i)"
        using c(2) c1 by (auto simp: earliest_def split: if_splits)
      then have "earliest rs (Suc k) (int k)"
        using True by (auto simp: earliest_def less_Suc_eq)
      ultimately show ?thesis using step by simp
    next
      case c2: False
      then have cprops: "0 \<le> c" "nat c < k" "has_packet (rs ! nat c)"
        "\<forall>i<k. has_packet (rs ! i) \<longrightarrow> nextp_ts (refill (rs ! nat c)) \<le> nextp_ts (refill (rs ! i))"
        "\<forall>i<nat c. has_packet (rs ! i) \<longrightarrow> nextp_ts (refill (rs ! nat c)) < nextp_ts (refill (rs ! i))"
        using c(2) by (auto simp: earliest_def split: if_splits)
      have Rc: "?R ! nat c = refill (rs ! nat c)"
        using k cprops(2) by (simp add: refilled_upto_nth)
      show ?thesis
      proof (cases "nextp_ts (refill (rs ! k)) < nextp_ts (refill (rs ! nat c))")
        case lt: True
        then have "choose_step k (refilled_upto k rs, c) = (?R, int k)"
          using k neof c2 by (simp add: choose_step_def refilled_upto_Suc Let_def Rk Rc)
        moreover have "earliest rs (Suc k) (int k)"
          using True lt cprops by (fastforce simp: earliest_def less_Suc_eq)
        ultimately show ?thesis using step by simp
      next
        case ge: False
        then have "choose_step k (refilled_upto k rs, c) = (?R, c)"
          using k neof c2 by (simp add: choose_step_def refilled_upto_Suc Let_def Rk Rc)
        moreover have "earliest rs (Suc k) c"
          using True ge cprops by (auto simp: earliest_def less_Suc_eq)
        ultimately show ?thesis using step by simp
      qed
    qed
  qed
qed

lemma choose_next_merge_packet_eq:
  assumes "length rs = n"
  shows "\<exists>c. choose_next_merge_packet rs n = (map refill rs, c) \<and> earliest rs n c"
  using choose_fold_inv [of n rs] assms by (simp add: choose_next_merge_packet_def refilled_upto_def)


text \<open>
  A reader is coherent when a buffered packet really is in the buffer and \<open>nextp_ts\<close> is
  its timestamp. The merge only ever builds coherent readers.
\<close>

definition coherent :: "interim_reader \<Rightarrow> bool" where
  "coherent r =
     (if status r = CORSARO_WDCAP_INTERIM_PACKET
      then (case nextp r of Some (Some p) \<Rightarrow> nextp_ts r = erf_ts p | _ \<Rightarrow> False)
      else True)"

lemma coherent_refill: "coherent r \<Longrightarrow> coherent (refill r)"
  by (cases "status r")
     (auto simp: coherent_def refill_def corsaro_read_next_packet_def trace_get_erf_timestamp_def
           split: option.splits list.splits)

lemma coherent_buffered_ts:
  "coherent r \<Longrightarrow> status r = CORSARO_WDCAP_INTERIM_PACKET \<Longrightarrow>
   nextp_ts r = trace_get_erf_timestamp (nextp r)"
  by (auto simp: coherent_def trace_get_erf_timestamp_def split: option.splits)

text \<open>
  Claim C4. On an array of \<open>n\<close> readers, \<open>choose_next_merge_packet\<close> refills every reader
  and returns \<open>-1\<close> exactly when no reader has a packet left. Otherwise it returns the
  index of a reader with a buffered packet whose timestamp is the least among the readers
  with a buffered packet, and strictly less than that of every such reader with a lower
  index: among equal timestamps the lowest index wins. For coherent readers the compared
  \<open>nextp_ts\<close> is the timestamp of the packet in the buffer.
\<close>

theorem choose_next_merge_packet_earliest:
  assumes "length rs = n"
  shows "\<exists>rs' c. choose_next_merge_packet rs n = (rs', c) \<and> rs' = map refill rs \<and>
           (c = -1 \<longleftrightarrow> (\<forall>i<n. \<not> has_packet (rs ! i))) \<and>
           (c \<noteq> -1 \<longrightarrow>
              0 \<le> c \<and> nat c < n \<and> status (rs' ! nat c) = CORSARO_WDCAP_INTERIM_PACKET \<and>
              (\<forall>i<n. status (rs' ! i) = CORSARO_WDCAP_INTERIM_PACKET \<longrightarrow>
                     nextp_ts (rs' ! nat c) \<le> nextp_ts (rs' ! i)) \<and>
              (\<forall>i<nat c. status (rs' ! i) = CORSARO_WDCAP_INTERIM_PACKET \<longrightarrow>
                     nextp_ts (rs' ! nat c) < nextp_ts (rs' ! i))) \<and>
           ((\<forall>i<n. coherent (rs ! i)) \<longrightarrow>
              (\<forall>i<n. status (rs' ! i) = CORSARO_WDCAP_INTERIM_PACKET \<longrightarrow>
                     nextp_ts (rs' ! i) = trace_get_erf_timestamp (nextp (rs' ! i))))"
proof -
  obtain c where c: "choose_next_merge_packet rs n = (map refill rs, c)" "earliest rs n c"
    using choose_next_merge_packet_eq [OF assms] by blast
  have nth: "\<And>i. i < n \<Longrightarrow> map refill rs ! i = refill (rs ! i)"
    using assms by simp
  have none: "c = -1 \<longleftrightarrow> (\<forall>i<n. \<not> has_packet (rs ! i))"
    using c(2) by (auto simp: earliest_def split: if_splits)
  have some: "c \<noteq> -1 \<longrightarrow>
              0 \<le> c \<and> nat c < n \<and> status (map refill rs ! nat c) = CORSARO_WDCAP_INTERIM_PACKET \<and>
              (\<forall>i<n. status (map refill rs ! i) = CORSARO_WDCAP_INTERIM_PACKET \<longrightarrow>
                     nextp_ts (map refill rs ! nat c) \<le> nextp_ts (map refill rs ! i)) \<and>
              (\<forall>i<nat c. status (map refill rs ! i) = CORSARO_WDCAP_INTERIM_PACKET \<longrightarrow>
                     nextp_ts (map refill rs ! nat c) < nextp_ts (map refill rs ! i))"
  proof
    assume "c \<noteq> -1"
    then have p: "0 \<le> c" "nat c < n" "has_packet (rs ! nat c)"
      "\<forall>i<n. has_packet (rs ! i) \<longrightarrow> nextp_ts (refill (rs ! nat c)) \<le> nextp_ts (refill (rs ! i))"
      "\<forall>i<nat c. has_packet (rs ! i) \<longrightarrow> nextp_ts (refill (rs ! nat c)) < nextp_ts (refill (rs ! i))"
      using c(2) by (auto simp: earliest_def split: if_splits)
    show "0 \<le> c \<and> nat c < n \<and> status (map refill rs ! nat c) = CORSARO_WDCAP_INTERIM_PACKET \<and>
              (\<forall>i<n. status (map refill rs ! i) = CORSARO_WDCAP_INTERIM_PACKET \<longrightarrow>
                     nextp_ts (map refill rs ! nat c) \<le> nextp_ts (map refill rs ! i)) \<and>
              (\<forall>i<nat c. status (map refill rs ! i) = CORSARO_WDCAP_INTERIM_PACKET \<longrightarrow>
                     nextp_ts (map refill rs ! nat c) < nextp_ts (map refill rs ! i))"
      using p by (simp add: nth refill_packet_iff)
  qed
  have coh: "(\<forall>i<n. coherent (rs ! i)) \<longrightarrow>
              (\<forall>i<n. status (map refill rs ! i) = CORSARO_WDCAP_INTERIM_PACKET \<longrightarrow>
                     nextp_ts (map refill rs ! i) = trace_get_erf_timestamp (nextp (map refill rs ! i)))"
    by (auto simp: nth intro!: coherent_buffered_ts coherent_refill)
  show ?thesis using c(1) none some coh by blast
qed

text \<open>
  An instance: reader 0 holds a packet with timestamp 5, reader 1 has to read its next
  packet, which also has timestamp 5, and reader 2 never had a file. Reader 0 is chosen.
\<close>

definition tie_readers :: "interim_reader list" where
  "tie_readers =
     [\<lparr>uri = Some ''pcapfile:/t--0'', source = Some [], nextp = Some (Some \<lparr>erf_ts = 5, payload = 10\<rparr>),
       nextp_ts = 5, status = CORSARO_WDCAP_INTERIM_PACKET\<rparr>,
      \<lparr>uri = Some ''pcapfile:/t--1'', source = Some [\<lparr>erf_ts = 5, payload = 11\<rparr>, \<lparr>erf_ts = 9, payload = 12\<rparr>],
       nextp = Some None, nextp_ts = -1, status = CORSARO_WDCAP_INTERIM_NOPACKET\<rparr>,
      \<lparr>uri = Some ''pcapfile:/t--2'', source = None, nextp = None,
       nextp_ts = -1, status = CORSARO_WDCAP_INTERIM_EOF\<rparr>]"

lemma upt3: "[0..<3] = [0, 1, 2]" by (simp add: upt_rec)

theorem choose_next_merge_packet_earliest_witness:
  "length tie_readers = 3 \<and> snd (choose_next_merge_packet tie_readers 3) = 0 \<and>
   nextp_ts (fst (choose_next_merge_packet tie_readers 3) ! 1) = 5"
proof -
  have h: "length tie_readers = 3" by (simp add: tie_readers_def)
  have e: "choose_next_merge_packet tie_readers 3 = (map refill tie_readers, 0)"
    by (simp add: choose_next_merge_packet_def upt3 choose_step_def refill_def tie_readers_def
          corsaro_read_next_packet_def trace_get_erf_timestamp_def)
  show ?thesis
    using h choose_next_merge_packet_earliest [OF h] e
    by (simp add: tie_readers_def refill_def corsaro_read_next_packet_def trace_get_erf_timestamp_def)
qed

subsection \<open>The merging thread's surroundings\<close>

text \<open>
  The capture statistics of a thread: for each counter a validity flag and a 64-bit count.
\<close>

datatype stat_field = accepted | filtered | received | dropped | captured | missing | errors

type_synonym libtrace_stat = "stat_field \<Rightarrow> bool \<times> 64 word"

definition all_stat_fields :: "stat_field list" where
  "all_stat_fields = [accepted, filtered, received, dropped, captured, missing, errors]"

definition zero_stat :: libtrace_stat where
  "zero_stat = (\<lambda>f. (False, 0))"

text \<open>\<open>MERGE_FIELD\<close>: a field that is valid in \<open>from\<close> becomes valid in \<open>to\<close> and is added.\<close>

definition merge_ltstats :: "libtrace_stat \<Rightarrow> libtrace_stat \<Rightarrow> libtrace_stat" where
  "merge_ltstats to from = (\<lambda>f. if fst (from f) then (True, snd (to f) + snd (from f)) else to f)"

text \<open>What the program does to the outside, in the order in which it does it.\<close>

datatype stats_line =
    TimeLine "32 word"
  | FieldLine int stat_field int
  | DurationLine "64 word"

datatype action =
    CloseFd int
  | DestroyTraceWriter
  | WriteStats "string option" "stats_line list"
  | CreateDone "string option"
  | TraceDestroyPacket nat
  | DestroyTraceReader nat
  | Remove string
  | LogStatsError "string option"
  | LogDoneMerging "32 word"
  | LogOutOfOrder "32 word" "32 word"
  | LogMergeFailed "32 word"
  | LogRecvError
  | LogUnexpectedMessage nat
  | LogTooManyBadMessages

text \<open>\<open>LOG_FIELD\<close>: one line per counter, \<open>-1\<close> for a counter that is not valid.\<close>

definition log_ltstats :: "libtrace_stat \<Rightarrow> int \<Rightarrow> stats_line list" where
  "log_ltstats s threadid =
     map (\<lambda>f. FieldLine threadid f (if fst (s f) then sint (snd (s f)) else -1)) all_stat_fields"

text \<open>
  The part of the global state that the threads read: the number of processing threads,
  the length of an interval in seconds (printed with \<open>%u\<close>: an unsigned 32-bit number) and
  whether statistics files are written.
\<close>

record wdcap_global =
  threads :: nat
  interval :: "32 word"
  writestats :: bool

text \<open>
  What the libraries and the file system answer during a merge. The file name renderer
  \<open>corsaro_wdcap_derive_output_name\<close> (arguments: interval timestamp, thread id or \<open>-1\<close>,
  \<open>needformat\<close>, \<open>exttype\<close>) depends on the configured template and on \<open>strftime\<close>; it is
  a parameter here and may return no name. Opening a reader on a URI either fails or
  gives the packets of that interim file; \<open>create_packet i\<close> says whether the packet
  buffer of reader \<open>i\<close> can be allocated; \<open>write_packet k p\<close> whether writing \<open>p\<close> after
  \<open>k\<close> written packets succeeds; \<open>stats_fopen\<close> and \<open>done_fopen\<close> whether \<open>fopen\<close> opens
  the statistics file and the marker file for writing.
\<close>

record merge_env =
  derive_output_name :: "32 word \<Rightarrow> int \<Rightarrow> bool \<Rightarrow> nat \<Rightarrow> string option"
  create_trace_reader :: "string \<Rightarrow> packet list option"
  create_packet :: "nat \<Rightarrow> bool"
  create_trace_writer :: "string option \<Rightarrow> bool"
  write_packet :: "nat \<Rightarrow> packet \<Rightarrow> bool"
  stats_fopen :: "string option \<Rightarrow> bool"
  done_fopen :: "string \<Rightarrow> bool"
  msec_before :: "64 word"
  msec_after :: "64 word"

text \<open>An interval that some threads have finished (\<open>corsaro_wdcap_interval_t\<close>).\<close>

record wdcap_interval =
  timestamp :: "32 word"
  threads_done :: nat
  thread_ids :: "8 word list"
  thread_stats :: "libtrace_stat list"

subsection \<open>Merging the interim files of one interval\<close>

text \<open>
  Modelled from the spec: \<open>corsaro_create_trace_reader\<close> is the trace library's. Without
  a URI no reader is created.
\<close>

definition corsaro_create_trace_reader :: "merge_env \<Rightarrow> string option \<Rightarrow> packet list option" where
  "corsaro_create_trace_reader env u = (case u of None \<Rightarrow> None | Some s \<Rightarrow> create_trace_reader env s)"

text \<open>
  The first loop of \<open>write_merged_output\<close>, over the thread numbers still to visit. It
  stops (\<open>goto fail\<close>) at the first reader whose packet buffer cannot be allocated; the
  entries behind it keep what an earlier merge left in them.
\<close>

fun create_readers ::
  "merge_env \<Rightarrow> 32 word \<Rightarrow> nat list \<Rightarrow> interim_reader list \<Rightarrow> interim_reader list \<times> bool"
where
  "create_readers env ts [] rs = (rs, True)"
| "create_readers env ts (i # is) rs =
     (let u = derive_output_name env ts (int i) True 0 in
      case corsaro_create_trace_reader env u of
        None \<Rightarrow>
          create_readers env ts is
            (rs[i := \<lparr>uri = u, source = None, nextp = None, nextp_ts = -1,
                      status = CORSARO_WDCAP_INTERIM_EOF\<rparr>])
      | Some ps \<Rightarrow>
          if create_packet env i then
            create_readers env ts is
              (rs[i := \<lparr>uri = u, source = Some ps, nextp = Some None, nextp_ts = -1,
                        status = CORSARO_WDCAP_INTERIM_NOPACKET\<rparr>])
          else
            (rs[i := \<lparr>uri = u, source = Some ps, nextp = None, nextp_ts = -1,
                      status = CORSARO_WDCAP_INTERIM_NOPACKET\<rparr>], False))"

text \<open>
  Modelled from the spec: \<open>corsaro_write_packet\<close> is the trace library's. It appends the
  packet in the buffer to the output file and gives the packet written, or nothing when
  the write fails (a negative result in the program) or the buffer holds no packet.
\<close>

definition corsaro_write_packet :: "merge_env \<Rightarrow> nat \<Rightarrow> packet option option \<Rightarrow> packet option" where
  "corsaro_write_packet env k buf =
     (case buf of Some (Some p) \<Rightarrow> if write_packet env k p then Some p else None | _ \<Rightarrow> None)"

text \<open>How many packets a reader can still contribute; this decreases with every written packet.\<close>

definition pending_count :: "interim_reader \<Rightarrow> nat" where
  "pending_count r =
     (case status r of
        CORSARO_WDCAP_INTERIM_EOF \<Rightarrow> 0
      | CORSARO_WDCAP_INTERIM_PACKET \<Rightarrow> Suc (case source r of None \<Rightarrow> 0 | Some ps \<Rightarrow> length ps)
      | CORSARO_WDCAP_INTERIM_NOPACKET \<Rightarrow> (case source r of None \<Rightarrow> 0 | Some ps \<Rightarrow> length ps))"

lemma pending_count_refill: "pending_count (refill r) \<le> pending_count r"
  by (cases "status r")
     (auto simp: pending_count_def refill_def corsaro_read_next_packet_def
           split: option.splits list.splits)

definition cand_ok :: "interim_reader list \<Rightarrow> int \<Rightarrow> bool" where
  "cand_ok rs c \<longleftrightarrow>
     c = -1 \<or> (0 \<le> c \<and> (nat c < length rs \<longrightarrow> status (rs ! nat c) = CORSARO_WDCAP_INTERIM_PACKET))"

lemma sum_pending_update_le:
  assumes "pending_count x \<le> pending_count (rs ! i)"
  shows "sum_list (map pending_count (rs[i := x])) \<le> sum_list (map pending_count rs)"
proof (cases "i < length rs")
  case True
  then have "sum_list (map pending_count (rs[i := x])) =
        sum_list (map pending_count rs) + pending_count x - pending_count (rs ! i)"
    by (simp add: map_update sum_list_update)
  then show ?thesis using assms by simp
next
  case False
  then show ?thesis by (simp add: list_update_beyond)
qed

lemma sum_pending_update_less:
  assumes "i < length rs" and "pending_count x < pending_count (rs ! i)"
  shows "sum_list (map pending_count (rs[i := x])) < sum_list (map pending_count rs)"
proof -
  have "sum_list (map pending_count (rs[i := x])) =
        sum_list (map pending_count rs) + pending_count x - pending_count (rs ! i)"
    using assms(1) by (simp add: map_update sum_list_update)
  moreover have "pending_count (rs ! i) \<le> sum_list (map pending_count rs)"
    using assms(1) by (simp add: member_le_sum_list)
  ultimately show ?thesis using assms(2) by simp
qed

lemma choose_step_props:
  assumes "choose_step i (rs, c) = (rs', c')" and "cand_ok rs c"
  shows "length rs' = length rs"
    and "sum_list (map pending_count rs') \<le> sum_list (map pending_count rs)"
    and "cand_ok rs' c'"
proof -
  have rs': "rs' = rs[i := refill (rs ! i)]"
    using assms(1) by (auto simp: choose_step_def Let_def split: if_splits)
  show "length rs' = length rs" by (simp add: rs')
  show "sum_list (map pending_count rs') \<le> sum_list (map pending_count rs)"
    unfolding rs' by (rule sum_pending_update_le) (rule pending_count_refill)
  have pk: "i < length rs \<Longrightarrow> status (rs' ! i) \<noteq> CORSARO_WDCAP_INTERIM_EOF \<Longrightarrow>
            status (rs' ! i) = CORSARO_WDCAP_INTERIM_PACKET"
    using refill_not_nopacket [of "rs ! i"] by (cases "status (rs' ! i)") (auto simp: rs')
  show "cand_ok rs' c'"
  proof (cases "c' = c")
    case True
    show ?thesis
    proof (cases "nat c = i \<and> i < length rs \<and> c \<noteq> -1")
      case False
      then show ?thesis using assms(2) True by (auto simp: cand_ok_def rs' nth_list_update)
    next
      case t: True
      then have "status (rs' ! i) \<noteq> CORSARO_WDCAP_INTERIM_EOF"
        using assms(2) refill_eof_iff [of "rs ! i"]
        by (auto simp: cand_ok_def rs' has_packet_def)
      then show ?thesis using pk t True assms(2) by (auto simp: cand_ok_def)
    qed
  next
    case False
    then have "c' = int i \<and> status (rs' ! i) \<noteq> CORSARO_WDCAP_INTERIM_EOF"
      using assms(1) by (auto simp: choose_step_def Let_def rs' split: if_splits)
    then show ?thesis using pk by (auto simp: cand_ok_def rs')
  qed
qed

lemma choose_fold_props:
  assumes "fold choose_step is (rs, c) = (rs', c')" and "cand_ok rs c"
  shows "length rs' = length rs \<and>
         sum_list (map pending_count rs') \<le> sum_list (map pending_count rs) \<and> cand_ok rs' c'"
  using assms
proof (induction "is" arbitrary: rs c)
  case Nil
  then show ?case by simp
next
  case (Cons i "is")
  obtain rs1 c1 where s: "choose_step i (rs, c) = (rs1, c1)" by (cases "choose_step i (rs, c)")
  from choose_step_props [OF s Cons.prems(2)]
  have p: "length rs1 = length rs" "sum_list (map pending_count rs1) \<le> sum_list (map pending_count rs)"
    "cand_ok rs1 c1" by auto
  from Cons.prems(1) s have "fold choose_step is (rs1, c1) = (rs', c')" by simp
  from Cons.IH [OF this p(3)] p show ?case by simp
qed

lemma choose_next_merge_packet_props:
  assumes "choose_next_merge_packet rs n = (rs', c)"
  shows "length rs' = length rs"
    and "sum_list (map pending_count rs') \<le> sum_list (map pending_count rs)"
    and "cand_ok rs' c"
proof -
  have "cand_ok rs (-1)" by (simp add: cand_ok_def)
  moreover have "fold choose_step [0..<n] (rs, -1) = (rs', c)"
    using assms by (simp add: choose_next_merge_packet_def)
  ultimately have "length rs' = length rs \<and>
         sum_list (map pending_count rs') \<le> sum_list (map pending_count rs) \<and> cand_ok rs' c"
    by (rule choose_fold_props [rotated])
  then show "length rs' = length rs"
    and "sum_list (map pending_count rs') \<le> sum_list (map pending_count rs)"
    and "cand_ok rs' c" by simp_all
qed

text \<open>
  The \<open>do ... while\<close> loop of \<open>write_merged_output\<close>, on the readers and the packets written
  so far. It ends with \<open>True\<close> when no reader has a packet left and with \<open>False\<close> when a
  write fails. The array of readers has \<open>inpcount\<close> entries in the program; an index
  outside the array is not followed: the loop ends as for a failure.
\<close>

function merge_loop ::
  "merge_env \<Rightarrow> nat \<Rightarrow> interim_reader list \<Rightarrow> packet list \<Rightarrow> interim_reader list \<times> packet list \<times> bool"
where
  "merge_loop env inpcount rs out =
     (case choose_next_merge_packet rs inpcount of
        (rs', candind) \<Rightarrow>
          if candind = -1 then (rs', out, True)
          else if \<not> nat candind < length rs' then (rs', out, False)
          else
            (case corsaro_write_packet env (length out) (nextp (rs' ! nat candind)) of
               None \<Rightarrow> (rs', out, False)
             | Some p \<Rightarrow>
                 merge_loop env inpcount
                   (rs'[nat candind := (rs' ! nat candind)\<lparr>status := CORSARO_WDCAP_INTERIM_NOPACKET\<rparr>])
                   (out @ [p])))"
  by pat_completeness auto
termination
proof (relation "measure (\<lambda>(env, inpcount, rs, out). sum_list (map pending_count rs))")
  show "wf (measure (\<lambda>(env, inpcount, rs, out). sum_list (map pending_count rs)))" by simp
next
  fix env :: merge_env and inpcount :: nat and rs rs' :: "interim_reader list"
    and out :: "packet list" and x candind and p :: packet
  assume ch: "(rs', candind) = choose_next_merge_packet rs inpcount" (is "?x = _")
    and c: "candind \<noteq> -1" "\<not> \<not> nat candind < length rs'"
  have props: "sum_list (map pending_count rs') \<le> sum_list (map pending_count rs)" "cand_ok rs' candind"
    using choose_next_merge_packet_props [OF ch [symmetric]] by auto
  have st: "status (rs' ! nat candind) = CORSARO_WDCAP_INTERIM_PACKET"
    using props(2) c by (auto simp: cand_ok_def)
  have "sum_list (map pending_count
            (rs'[nat candind := (rs' ! nat candind)\<lparr>status := CORSARO_WDCAP_INTERIM_NOPACKET\<rparr>]))
        < sum_list (map pending_count rs')"
    using c(2) st by (intro sum_pending_update_less) (auto simp: pending_count_def)
  then show "((env, inpcount,
              rs'[nat candind := (rs' ! nat candind)\<lparr>status := CORSARO_WDCAP_INTERIM_NOPACKET\<rparr>],
              out @ [p]), env, inpcount, rs, out)
            \<in> measure (\<lambda>(env, inpcount, rs, out). sum_list (map pending_count rs))"
    using props(1) by simp
qed

declare merge_loop.simps [simp del]

definition remaining :: "interim_reader \<Rightarrow> packet list" where
  "remaining r =
     (case status r of
        CORSARO_WDCAP_INTERIM_EOF \<Rightarrow> []
      | CORSARO_WDCAP_INTERIM_NOPACKET \<Rightarrow> (case source r of None \<Rightarrow> [] | Some ps \<Rightarrow> ps)
      | CORSARO_WDCAP_INTERIM_PACKET \<Rightarrow>
          (case nextp r of Some (Some p) \<Rightarrow> [p] | _ \<Rightarrow> []) @
          (case source r of None \<Rightarrow> [] | Some ps \<Rightarrow> ps))"

definition wf_reader :: "interim_reader \<Rightarrow> bool" where
  "wf_reader r \<longleftrightarrow>
     coherent r \<and> (status r \<noteq> CORSARO_WDCAP_INTERIM_EOF \<longrightarrow> source r \<noteq> None \<and> nextp r \<noteq> None)"

lemma wf_refill: "wf_reader r \<Longrightarrow> wf_reader (refill r)"
  by (cases "status r")
     (auto simp: wf_reader_def coherent_def refill_def corsaro_read_next_packet_def
                 trace_get_erf_timestamp_def split: option.splits list.splits)

lemma remaining_refill: "wf_reader r \<Longrightarrow> remaining (refill r) = remaining r"
  by (cases "status r")
     (auto simp: wf_reader_def remaining_def refill_def corsaro_read_next_packet_def
           split: option.splits list.splits)

lemma remaining_no_packet: "wf_reader r \<Longrightarrow> \<not> has_packet r \<Longrightarrow> remaining r = []"
  by (cases "status r")
     (auto simp: wf_reader_def remaining_def has_packet_def corsaro_read_next_packet_def
           split: option.splits list.splits)

lemma remaining_has_packet:
  assumes "wf_reader r" and "has_packet r"
  shows "\<exists>p ps. remaining r = p # ps \<and> nextp (refill r) = Some (Some p) \<and>
                nextp_ts (refill r) = erf_ts p \<and> source (refill r) = Some ps \<and>
                status (refill r) = CORSARO_WDCAP_INTERIM_PACKET"
  using assms
  by (cases "status r")
     (auto simp: wf_reader_def coherent_def remaining_def has_packet_def refill_def
                 corsaro_read_next_packet_def trace_get_erf_timestamp_def
           split: option.splits list.splits)

lemma sum_list_mset_update:
  fixes f :: "'a \<Rightarrow> 'b multiset"
  shows "i < length xs \<Longrightarrow> (\<Sum>x\<leftarrow>xs[i := y]. f x) + f (xs ! i) = (\<Sum>x\<leftarrow>xs. f x) + f y"
proof (induction xs arbitrary: i)
  case Nil
  then show ?case by simp
next
  case (Cons a xs)
  show ?case
  proof (cases i)
    case 0
    then show ?thesis by simp
  next
    case (Suc j)
    then have "j < length xs" using Cons.prems by simp
    from Cons.IH [OF this] show ?thesis using Suc by (simp add: ac_simps)
  qed
qed

lemma sum_list_mset_all_empty:
  "(\<forall>x\<in>set xs. g x = []) \<Longrightarrow> (\<Sum>x\<leftarrow>xs. mset (g x)) = {#}"
  by (induction xs) auto

lemma sum_list_mset_cong:
  "(\<forall>x\<in>set xs. g (f x) = g x) \<Longrightarrow> (\<Sum>x\<leftarrow>map f xs. mset (g x)) = (\<Sum>x\<leftarrow>xs. mset (g x))"
  by (induction xs) auto

lemma merge_loop_inv:
  assumes "length rs = n"
    and "\<forall>i<n. wf_reader (rs ! i)"
    and "merge_loop env n rs out = (rsF, outF, ok)"
  shows "(ok \<longrightarrow> mset outF = mset out + (\<Sum>r\<leftarrow>rs. mset (remaining r))) \<and>
         ((\<forall>k p. write_packet env k p) \<longrightarrow> ok) \<and>
         length rsF = n \<and>
         (ok \<longrightarrow> (\<forall>i<n. status (rsF ! i) = CORSARO_WDCAP_INTERIM_EOF)) \<and>
         ((\<forall>i<n. sorted (map erf_ts (remaining (rs ! i)))) \<and> sorted (map erf_ts out) \<and>
          (\<forall>x\<in>set out. \<forall>i<n. \<forall>y\<in>set (remaining (rs ! i)). erf_ts x \<le> erf_ts y)
          \<longrightarrow> sorted (map erf_ts outF))"
  using assms
proof (induction env n rs out arbitrary: rsF outF ok rule: merge_loop.induct)
  case (1 env n rs out)
  note len = "1.prems"(1) and wf = "1.prems"(2) and res = "1.prems"(3)
  let ?R = "map refill rs"
  obtain c where ch: "choose_next_merge_packet rs n = (?R, c)" and e: "earliest rs n c"
    using choose_next_merge_packet_eq [OF len] by blast
  have Rn: "\<And>i. i < n \<Longrightarrow> ?R ! i = refill (rs ! i)" using len by simp
  have remR: "\<And>i. i < n \<Longrightarrow> remaining (?R ! i) = remaining (rs ! i)"
    using wf by (simp add: Rn remaining_refill)
  have sumR: "(\<Sum>r\<leftarrow>?R. mset (remaining r)) = (\<Sum>r\<leftarrow>rs. mset (remaining r))"
    by (rule sum_list_mset_cong) (use wf len in \<open>auto simp: in_set_conv_nth remaining_refill\<close>)
  have ml: "merge_loop env n rs out =
     (if c = -1 then (?R, out, True)
      else if \<not> nat c < length ?R then (?R, out, False)
      else (case corsaro_write_packet env (length out) (nextp (?R ! nat c)) of
              None \<Rightarrow> (?R, out, False)
            | Some p \<Rightarrow> merge_loop env n
                 (?R[nat c := (?R ! nat c)\<lparr>status := CORSARO_WDCAP_INTERIM_NOPACKET\<rparr>]) (out @ [p])))"
    by (subst merge_loop.simps) (simp add: ch)
  show ?case
  proof (cases "c = -1")
    case True
    then have none: "\<forall>i<n. \<not> has_packet (rs ! i)"
      using e by (auto simp: earliest_def split: if_splits)
    have r: "rsF = ?R" "outF = out" "ok" using res ml True by auto
    have "\<forall>r\<in>set rs. remaining r = []"
      using none wf len by (auto simp: in_set_conv_nth remaining_no_packet)
    then have "(\<Sum>r\<leftarrow>rs. mset (remaining r)) = {#}" by (rule sum_list_mset_all_empty)
    moreover have "\<forall>i<n. status (?R ! i) = CORSARO_WDCAP_INTERIM_EOF"
      using none by (simp add: Rn refill_eof_iff)
    ultimately show ?thesis using r len by simp
  next
    case False
    then have cp: "0 \<le> c" "nat c < n" "has_packet (rs ! nat c)"
      and cmin: "\<forall>i<n. has_packet (rs ! i) \<longrightarrow> nextp_ts (refill (rs ! nat c)) \<le> nextp_ts (refill (rs ! i))"
      using e by (auto simp: earliest_def split: if_splits)
    obtain p ps where pc: "remaining (rs ! nat c) = p # ps" "nextp (refill (rs ! nat c)) = Some (Some p)"
      "nextp_ts (refill (rs ! nat c)) = erf_ts p" "source (refill (rs ! nat c)) = Some ps"
      "status (refill (rs ! nat c)) = CORSARO_WDCAP_INTERIM_PACKET"
      using remaining_has_packet [OF wf [rule_format, OF cp(2)] cp(3)] by blast
    show ?thesis
    proof (cases "write_packet env (length out) p")
      case nw: False
      then have "rsF = ?R" "outF = out" "\<not> ok"
        using res ml False cp len by (auto simp: corsaro_write_packet_def Rn pc)
      then show ?thesis using len nw by auto
    next
      case w: True
      let ?rs2 = "?R[nat c := (?R ! nat c)\<lparr>status := CORSARO_WDCAP_INTERIM_NOPACKET\<rparr>]"
      have wr: "corsaro_write_packet env (length out) (nextp (?R ! nat c)) = Some p"
        using w cp by (simp add: corsaro_write_packet_def Rn pc)
      have res2: "merge_loop env n ?rs2 (out @ [p]) = (rsF, outF, ok)"
        using res ml False cp len wr by simp
      have len2: "length ?rs2 = n" using len by simp
      have rem_c': "remaining ((refill (rs ! nat c))\<lparr>status := CORSARO_WDCAP_INTERIM_NOPACKET\<rparr>) = ps"
        by (simp add: remaining_def pc)
      then have rem_c: "remaining ((?R ! nat c)\<lparr>status := CORSARO_WDCAP_INTERIM_NOPACKET\<rparr>) = ps"
        using cp by (simp add: Rn)
      have rem2: "\<And>i. i < n \<Longrightarrow> remaining (?rs2 ! i) = (if i = nat c then ps else remaining (rs ! i))"
        using len rem_c' remR by (simp add: nth_list_update)
      have wf2: "\<forall>i<n. wf_reader (?rs2 ! i)"
      proof (intro allI impI)
        fix i assume i: "i < n"
        show "wf_reader (?rs2 ! i)"
        proof (cases "i = nat c")
          case True
          then show ?thesis using len i cp by (simp add: wf_reader_def coherent_def Rn pc)
        next
          case False
          then show ?thesis using len i wf by (simp add: Rn wf_refill)
        qed
      qed
      have IH: "(ok \<longrightarrow> mset outF = mset (out @ [p]) + (\<Sum>r\<leftarrow>?rs2. mset (remaining r))) \<and>
         ((\<forall>k p. write_packet env k p) \<longrightarrow> ok) \<and>
         length rsF = n \<and>
         (ok \<longrightarrow> (\<forall>i<n. status (rsF ! i) = CORSARO_WDCAP_INTERIM_EOF)) \<and>
         ((\<forall>i<n. sorted (map erf_ts (remaining (?rs2 ! i)))) \<and> sorted (map erf_ts (out @ [p])) \<and>
          (\<forall>x\<in>set (out @ [p]). \<forall>i<n. \<forall>y\<in>set (remaining (?rs2 ! i)). erf_ts x \<le> erf_ts y)
          \<longrightarrow> sorted (map erf_ts outF))"
        using False cp(2) len
        by (intro "1.IH" [OF ch [symmetric] _ _ wr len2 wf2 res2]) simp_all
      have "(\<Sum>r\<leftarrow>?rs2. mset (remaining r)) + mset (remaining (?R ! nat c)) =
            (\<Sum>r\<leftarrow>?R. mset (remaining r)) + mset ps"
        using sum_list_mset_update [of "nat c" ?R "\<lambda>r. mset (remaining r)"
                "(?R ! nat c)\<lparr>status := CORSARO_WDCAP_INTERIM_NOPACKET\<rparr>"] cp(2) len rem_c
        by simp
      then have eq: "(\<Sum>r\<leftarrow>?rs2. mset (remaining r)) + {#p#} = (\<Sum>r\<leftarrow>rs. mset (remaining r))"
        using remR [OF cp(2)] pc(1) sumR by simp
      have "mset (out @ [p]) + (\<Sum>r\<leftarrow>?rs2. mset (remaining r)) =
            mset out + ((\<Sum>r\<leftarrow>?rs2. mset (remaining r)) + {#p#})"
        by simp
      then have ms: "mset (out @ [p]) + (\<Sum>r\<leftarrow>?rs2. mset (remaining r)) =
                 mset out + (\<Sum>r\<leftarrow>rs. mset (remaining r))"
        by (simp only: eq)
      have "sorted (map erf_ts outF)"
        if srt: "\<forall>i<n. sorted (map erf_ts (remaining (rs ! i)))"
          and osrt: "sorted (map erf_ts out)"
          and lb: "\<forall>x\<in>set out. \<forall>i<n. \<forall>y\<in>set (remaining (rs ! i)). erf_ts x \<le> erf_ts y"
      proof -
        have ps_sorted: "sorted (map erf_ts (p # ps))"
          using srt cp(2) pc(1) by (metis)
        have srt2: "\<forall>i<n. sorted (map erf_ts (remaining (?rs2 ! i)))"
          using srt ps_sorted by (simp add: rem2)
        have p_ge: "\<forall>x\<in>set out. erf_ts x \<le> erf_ts p"
          using lb cp(2) pc(1) by (metis list.set_intros(1))
        have osrt2: "sorted (map erf_ts (out @ [p]))"
          using osrt p_ge by (simp add: sorted_append)
        have p_le: "\<forall>i<n. \<forall>y\<in>set (remaining (rs ! i)). erf_ts p \<le> erf_ts y"
        proof (intro allI impI ballI)
          fix i y assume i: "i < n" and y: "y \<in> set (remaining (rs ! i))"
          have hp: "has_packet (rs ! i)"
            using y remaining_no_packet [OF wf [rule_format, OF i]] by fastforce
          obtain q qs where q: "remaining (rs ! i) = q # qs" "nextp_ts (refill (rs ! i)) = erf_ts q"
            using remaining_has_packet [OF wf [rule_format, OF i] hp] by blast
          have "nextp_ts (refill (rs ! nat c)) \<le> nextp_ts (refill (rs ! i))"
            using cmin i hp by blast
          then have "erf_ts p \<le> erf_ts q" by (simp only: pc(3) q(2))
          moreover have "erf_ts q \<le> erf_ts y"
            using srt [rule_format, OF i] y q(1) by auto
          ultimately show "erf_ts p \<le> erf_ts y" by simp
        qed
        have lb2: "\<forall>x\<in>set (out @ [p]). \<forall>i<n. \<forall>y\<in>set (remaining (?rs2 ! i)). erf_ts x \<le> erf_ts y"
        proof (intro allI impI ballI)
          fix x i y assume x: "x \<in> set (out @ [p])" and i: "i < n" and y: "y \<in> set (remaining (?rs2 ! i))"
          have y': "y \<in> set (remaining (rs ! i))"
            using y i pc(1) by (auto simp: rem2 split: if_splits)
          show "erf_ts x \<le> erf_ts y"
          proof (cases "x = p")
            case True
            then show ?thesis using p_le i y' by blast
          next
            case False
            then have "x \<in> set out" using x by simp
            then show ?thesis using lb i y' by blast
          qed
        qed
        show ?thesis using IH srt2 osrt2 lb2 by blast
      qed
      then show ?thesis using IH ms by simp
    qed
  qed
qed

text \<open>
  The statistics block of \<open>write_merged_output\<close>: when statistics are enabled, the file is
  opened and, unless that fails, receives the interval, the counters of every thread,
  their sums and the duration of the merge.
\<close>

definition stats_block :: "merge_env \<Rightarrow> wdcap_global \<Rightarrow> wdcap_interval \<Rightarrow> action list" where
  "stats_block env g iv =
     (if writestats g then
        (let statfilename = derive_output_name env (timestamp iv) (-1) False 2 in
         if \<not> stats_fopen env statfilename then [LogStatsError statfilename]
         else
           [WriteStats statfilename
              (TimeLine (timestamp iv) #
               concat (map (\<lambda>i. log_ltstats (thread_stats iv ! i) (uint (thread_ids iv ! i)))
                           [0..<threads g]) @
               log_ltstats (fold (\<lambda>i overall_stats. merge_ltstats overall_stats (thread_stats iv ! i))
                                 [0..<threads g] zero_stat) (-1) @
               [DurationLine (msec_after env - msec_before env)])])
      else [])"

text \<open>
  The path that is deleted: the URI behind its first colon (\<open>strchr\<close>), the whole URI when
  it has no colon.
\<close>

definition interim_path :: "string \<Rightarrow> string" where
  "interim_path u = (case dropWhile (\<lambda>c. c \<noteq> CHR '':'') u of [] \<Rightarrow> u | c # tok \<Rightarrow> tok)"

text \<open>One round of the clean-up loop, for reader \<open>i\<close>.\<close>

definition cleanup_reader :: "interim_reader \<Rightarrow> nat \<Rightarrow> action list" where
  "cleanup_reader r i =
     (if nextp r \<noteq> None then [TraceDestroyPacket i] else []) @
     (case source r of
        None \<Rightarrow> []
      | Some ps \<Rightarrow>
          DestroyTraceReader i #
          (case uri r of None \<Rightarrow> [] | Some u \<Rightarrow> [Remove (interim_path u)]))"

text \<open>
  What a call of \<open>write_merged_output\<close> leaves: the reader array, the variable \<open>ret\<close>, the
  packets written to the merged file, the actions on files and handles in their order,
  and whether the call killed the process instead of returning. When \<open>res_crashed\<close> is
  set, \<open>res_ret\<close> is what \<open>ret\<close> held at that moment and nobody receives it.
\<close>

record merge_result =
  res_readers :: "interim_reader list"
  res_ret :: int
  res_written :: "packet list"
  res_actions :: "action list"
  res_crashed :: bool

text \<open>
  The \<open>fopen(donefilename, "w")\<close> of the marker: without a rendered name there is nothing
  to open, otherwise the file system decides.
\<close>

definition marker_fopen :: "merge_env \<Rightarrow> string option \<Rightarrow> bool" where
  "marker_fopen env donefilename =
     (case donefilename of None \<Rightarrow> False | Some name \<Rightarrow> done_fopen env name)"

text \<open>
  Everything from the label \<open>fail\<close> on: the writer is destroyed if there is one, the
  statistics block runs, the marker is created when \<open>success\<close> is set, the readers are
  cleaned up. The marker is created with \<open>f = fopen(donefilename, "w")\<close> followed by
  \<open>fclose(f)\<close>, and the program does not test \<open>f\<close> (it does test the result of the
  \<open>fopen\<close> in the statistics block). When the file cannot be opened, \<open>f\<close> is \<open>NULL\<close> and
  \<open>fclose(NULL)\<close> kills the process: there is no marker, the clean-up loop and the final
  log line are not reached, and the function does not return.
\<close>

definition finish_merge ::
  "merge_env \<Rightarrow> wdcap_global \<Rightarrow> wdcap_interval \<Rightarrow> bool \<Rightarrow> bool \<Rightarrow> interim_reader list \<Rightarrow>
   packet list \<Rightarrow> merge_result"
where
  "finish_merge env g iv has_writer success rs out =
     (let donefilename = derive_output_name env (timestamp iv) (-1) False 1;
          upto_marker = (if has_writer then [DestroyTraceWriter] else []) @ stats_block env g iv
      in if success \<and> \<not> marker_fopen env donefilename
         then \<lparr>res_readers = rs,
               res_ret = (if success then 0 else -1),
               res_written = out,
               res_actions = upto_marker,
               res_crashed = True\<rparr>
         else \<lparr>res_readers = rs,
               res_ret = (if success then 0 else -1),
               res_written = out,
               res_actions =
                 upto_marker @
                 (if success then [CreateDone donefilename] else []) @
                 concat (map (\<lambda>i. cleanup_reader (rs ! i) i) [0..<threads g]) @
                 [LogDoneMerging (timestamp iv)],
               res_crashed = False\<rparr>)"

definition write_merged_output ::
  "merge_env \<Rightarrow> wdcap_global \<Rightarrow> interim_reader list \<Rightarrow> wdcap_interval \<Rightarrow> merge_result"
where
  "write_merged_output env g rs iv =
     (case create_readers env (timestamp iv) [0..<threads g] rs of
        (rs1, allocated) \<Rightarrow>
          if \<not> allocated then finish_merge env g iv False False rs1 []
          else if \<not> create_trace_writer env (derive_output_name env (timestamp iv) (-1) True 0)
          then finish_merge env g iv False False rs1 []
          else
            (case merge_loop env (threads g) rs1 [] of
               (rs2, out, ok) \<Rightarrow> finish_merge env g iv True ok rs2 out))"

subsection \<open>What the reader set-up leaves in the array\<close>

text \<open>The packets of the interim file of thread \<open>i\<close>: none when the file cannot be opened.\<close>

definition interim_packets :: "merge_env \<Rightarrow> 32 word \<Rightarrow> nat \<Rightarrow> packet list" where
  "interim_packets env ts i =
     (case corsaro_create_trace_reader env (derive_output_name env ts (int i) True 0) of
        None \<Rightarrow> [] | Some ps \<Rightarrow> ps)"

definition opens :: "merge_env \<Rightarrow> 32 word \<Rightarrow> nat \<Rightarrow> bool" where
  "opens env ts i \<longleftrightarrow>
     corsaro_create_trace_reader env (derive_output_name env ts (int i) True 0) \<noteq> None"

definition alloc_fails :: "merge_env \<Rightarrow> 32 word \<Rightarrow> nat \<Rightarrow> bool" where
  "alloc_fails env ts i \<longleftrightarrow> opens env ts i \<and> \<not> create_packet env i"

definition new_reader :: "merge_env \<Rightarrow> 32 word \<Rightarrow> nat \<Rightarrow> interim_reader" where
  "new_reader env ts i =
     (let u = derive_output_name env ts (int i) True 0; src = corsaro_create_trace_reader env u in
      \<lparr>uri = u, source = src,
       nextp = (if src \<noteq> None \<and> create_packet env i then Some None else None),
       nextp_ts = -1,
       status = (if src = None then CORSARO_WDCAP_INTERIM_EOF else CORSARO_WDCAP_INTERIM_NOPACKET)\<rparr>)"

lemma create_readers_Cons:
  "create_readers env ts (i # is) rs =
     (if alloc_fails env ts i then (rs[i := new_reader env ts i], False)
      else create_readers env ts is (rs[i := new_reader env ts i]))"
  by (auto simp: alloc_fails_def opens_def new_reader_def Let_def split: option.splits)

declare create_readers.simps(2) [simp del]

lemma create_readers_untouched:
  "create_readers env ts is rs = (rs1, ok) \<Longrightarrow> i \<notin> set is \<Longrightarrow> rs1 ! i = rs ! i"
proof (induction "is" arbitrary: rs)
  case Nil
  then show ?case by simp
next
  case (Cons a "is")
  show ?case
  proof (cases "alloc_fails env ts a")
    case True
    then show ?thesis using Cons.prems by (auto simp: create_readers_Cons)
  next
    case False
    then have "create_readers env ts is (rs[a := new_reader env ts a]) = (rs1, ok)"
      using Cons.prems(1) by (simp add: create_readers_Cons)
    from Cons.IH [OF this] Cons.prems(2) show ?thesis by auto
  qed
qed

lemma create_readers_props:
  assumes "create_readers env ts is rs = (rs1, ok)" and "distinct is"
  shows "length rs1 = length rs \<and>
         (ok \<longleftrightarrow> (\<forall>i\<in>set is. \<not> alloc_fails env ts i)) \<and>
         (\<forall>k<length is. is ! k < length rs \<and> (\<forall>j<k. \<not> alloc_fails env ts (is ! j)) \<longrightarrow>
              rs1 ! (is ! k) = new_reader env ts (is ! k))"
  using assms
proof (induction "is" arbitrary: rs)
  case Nil
  then show ?case by simp
next
  case (Cons i "is")
  show ?case
  proof (cases "alloc_fails env ts i")
    case True
    then have r: "rs1 = rs[i := new_reader env ts i]" "\<not> ok"
      using Cons.prems(1) by (simp_all add: create_readers_Cons)
    have "rs1 ! ((i # is) ! k) = new_reader env ts ((i # is) ! k)"
      if "k < length (i # is)" "(i # is) ! k < length rs" "\<forall>j<k. \<not> alloc_fails env ts ((i # is) ! j)" for k
    proof (cases k)
      case 0
      then show ?thesis using that r by simp
    next
      case (Suc k')
      then show ?thesis using that(3) True by auto
    qed
    then show ?thesis using r True by auto
  next
    case False
    then have rec: "create_readers env ts is (rs[i := new_reader env ts i]) = (rs1, ok)"
      using Cons.prems(1) by (simp add: create_readers_Cons)
    have d: "distinct is" "i \<notin> set is" using Cons.prems(2) by auto
    from Cons.IH [OF rec d(1)]
    have IH: "length rs1 = length rs"
      "ok \<longleftrightarrow> (\<forall>i\<in>set is. \<not> alloc_fails env ts i)"
      "\<forall>k<length is. is ! k < length rs \<and> (\<forall>j<k. \<not> alloc_fails env ts (is ! j)) \<longrightarrow>
              rs1 ! (is ! k) = new_reader env ts (is ! k)"
      by auto
    have keep: "rs1 ! i = (rs[i := new_reader env ts i]) ! i"
      using create_readers_untouched [OF rec d(2)] .
    have "rs1 ! ((i # is) ! k) = new_reader env ts ((i # is) ! k)"
      if "k < length (i # is)" "(i # is) ! k < length rs" "\<forall>j<k. \<not> alloc_fails env ts ((i # is) ! j)" for k
    proof (cases k)
      case 0
      then show ?thesis using that keep by simp
    next
      case (Suc k')
      have "\<forall>j<k'. \<not> alloc_fails env ts (is ! j)"
        using that(3) Suc by auto
      then show ?thesis using that(1,2) Suc IH(3) by auto
    qed
    then show ?thesis using IH False by auto
  qed
qed

lemma create_readers_upt:
  assumes "create_readers env ts [0..<n] rs = (rs1, ok)" and "length rs = n"
  shows "length rs1 = n"
    and "ok \<longleftrightarrow> (\<forall>i<n. \<not> alloc_fails env ts i)"
    and "\<And>k. k < n \<Longrightarrow> \<forall>j<k. \<not> alloc_fails env ts j \<Longrightarrow> rs1 ! k = new_reader env ts k"
proof -
  have p: "length rs1 = length rs \<and>
         (ok \<longleftrightarrow> (\<forall>i\<in>set [0..<n]. \<not> alloc_fails env ts i)) \<and>
         (\<forall>k<length [0..<n]. [0..<n] ! k < length rs \<and> (\<forall>j<k. \<not> alloc_fails env ts ([0..<n] ! j)) \<longrightarrow>
              rs1 ! ([0..<n] ! k) = new_reader env ts ([0..<n] ! k))"
    by (rule create_readers_props [OF assms(1)]) simp
  show "length rs1 = n" using p assms(2) by simp
  show "ok \<longleftrightarrow> (\<forall>i<n. \<not> alloc_fails env ts i)" using p by auto
  show "rs1 ! k = new_reader env ts k" if "k < n" "\<forall>j<k. \<not> alloc_fails env ts j" for k
    using p that assms(2) by simp
qed

lemma create_readers_ok_flag:
  "snd (create_readers env ts [0..<n] rs) \<longleftrightarrow> (\<forall>i<n. \<not> alloc_fails env ts i)"
proof -
  obtain rs1 ok where r: "create_readers env ts [0..<n] rs = (rs1, ok)"
    by (cases "create_readers env ts [0..<n] rs")
  have "ok \<longleftrightarrow> (\<forall>i\<in>set [0..<n]. \<not> alloc_fails env ts i)"
    using create_readers_props [OF r] by simp
  then show ?thesis using r by auto
qed

lemma wf_new_reader: "\<not> alloc_fails env ts i \<Longrightarrow> wf_reader (new_reader env ts i)"
  by (auto simp: alloc_fails_def opens_def new_reader_def wf_reader_def coherent_def Let_def)

lemma remaining_new_reader:
  "\<not> alloc_fails env ts i \<Longrightarrow> remaining (new_reader env ts i) = interim_packets env ts i"
  by (auto simp: alloc_fails_def opens_def new_reader_def remaining_def interim_packets_def Let_def
           split: option.splits)

lemma sum_list_map_upt_nth:
  "(\<Sum>i\<leftarrow>[0..<length xs]. f (xs ! i)) = (\<Sum>x\<leftarrow>xs. f x)"
proof -
  have "map (\<lambda>i. f (xs ! i)) [0..<length xs] = map f (map ((!) xs) [0..<length xs])"
    by (simp add: comp_def)
  then show ?thesis by (simp only: map_nth)
qed

text \<open>
  Claim C2. The packets that \<open>write_merged_output\<close> writes are in non-decreasing order of
  timestamp whenever each interim file is; when the merge runs to its end (result 0) they
  are exactly the packets of the interim files, each as often as it occurs there; and the
  merge does run to its end when every buffer allocation, the creation of the writer and
  every write succeed.
\<close>

theorem merged_output_sorted_and_complete:
  assumes "length rs = threads g"
    and "\<forall>i<threads g. sorted (map erf_ts (interim_packets env (timestamp iv) i))"
  shows "sorted (map erf_ts (res_written (write_merged_output env g rs iv))) \<and>
         (res_ret (write_merged_output env g rs iv) = 0 \<longrightarrow>
            mset (res_written (write_merged_output env g rs iv)) =
            (\<Sum>i\<leftarrow>[0..<threads g]. mset (interim_packets env (timestamp iv) i))) \<and>
         ((\<forall>i<threads g. \<not> alloc_fails env (timestamp iv) i) \<and>
          create_trace_writer env (derive_output_name env (timestamp iv) (-1) True 0) \<and>
          (\<forall>k p. write_packet env k p) \<longrightarrow>
            res_ret (write_merged_output env g rs iv) = 0)"
proof -
  let ?n = "threads g" and ?ts = "timestamp iv"
  obtain rs1 ok1 where cr: "create_readers env ?ts [0..<?n] rs = (rs1, ok1)"
    by (cases "create_readers env ?ts [0..<?n] rs")
  note crp = create_readers_upt [OF cr assms(1)]
  show ?thesis
  proof (cases "ok1 \<and> create_trace_writer env (derive_output_name env ?ts (-1) True 0)")
    case False
    then have "write_merged_output env g rs iv = finish_merge env g iv False False rs1 []"
      using cr by (auto simp: write_merged_output_def)
    then show ?thesis using False crp(2) by (auto simp: finish_merge_def Let_def)
  next
    case True
    then have nf: "\<forall>i<?n. \<not> alloc_fails env ?ts i" using crp(2) by simp
    have rs1: "\<And>i. i < ?n \<Longrightarrow> rs1 ! i = new_reader env ?ts i"
      using crp(3) nf by simp
    obtain rs2 out ok where ml: "merge_loop env ?n rs1 [] = (rs2, out, ok)"
      by (cases "merge_loop env ?n rs1 []")
    have w: "write_merged_output env g rs iv = finish_merge env g iv True ok rs2 out"
      using cr True ml by (simp add: write_merged_output_def)
    have wf: "\<forall>i<?n. wf_reader (rs1 ! i)" using rs1 nf by (simp add: wf_new_reader)
    have rem: "\<And>i. i < ?n \<Longrightarrow> remaining (rs1 ! i) = interim_packets env ?ts i"
      using rs1 nf by (simp add: remaining_new_reader)
    note inv = merge_loop_inv [OF crp(1) wf ml]
    have srt: "sorted (map erf_ts out)"
      using inv assms(2) rem by simp
    have "(\<Sum>r\<leftarrow>rs1. mset (remaining r)) = (\<Sum>i\<leftarrow>[0..<length rs1]. mset (remaining (rs1 ! i)))"
      by (rule sum_list_map_upt_nth [symmetric])
    also have "\<dots> = (\<Sum>i\<leftarrow>[0..<?n]. mset (interim_packets env ?ts i))"
      using rem crp(1) by (intro arg_cong [where f = sum_list] map_cong) auto
    finally have ms: "ok \<longrightarrow> mset out = (\<Sum>i\<leftarrow>[0..<?n]. mset (interim_packets env ?ts i))"
      using inv by simp
    have "(\<forall>k p. write_packet env k p) \<longrightarrow> ok" using inv by blast
    then show ?thesis using srt ms w by (simp add: finish_merge_def Let_def)
  qed
qed

subsection \<open>The merge loop keeps the handles of the readers\<close>

definition same_handles :: "interim_reader \<Rightarrow> interim_reader \<Rightarrow> bool" where
  "same_handles r r' \<longleftrightarrow>
     uri r' = uri r \<and> (source r' = None \<longleftrightarrow> source r = None) \<and> (nextp r' = None \<longleftrightarrow> nextp r = None)"

definition handles_kept :: "interim_reader list \<Rightarrow> interim_reader list \<Rightarrow> bool" where
  "handles_kept rs rs' \<longleftrightarrow> length rs' = length rs \<and> (\<forall>i<length rs. same_handles (rs ! i) (rs' ! i))"

lemma handles_kept_refl: "handles_kept rs rs"
  by (simp add: handles_kept_def same_handles_def)

lemma handles_kept_trans: "handles_kept a b \<Longrightarrow> handles_kept b c \<Longrightarrow> handles_kept a c"
  by (auto simp: handles_kept_def same_handles_def)

lemma same_handles_refill: "same_handles r (refill r)"
  by (cases "status r")
     (auto simp: same_handles_def refill_def corsaro_read_next_packet_def
           split: option.splits list.splits)

lemma handles_kept_update:
  "same_handles (rs ! i) x \<Longrightarrow> handles_kept rs (rs[i := x])"
proof -
  assume x: "same_handles (rs ! i) x"
  have "same_handles (rs ! j) (rs[i := x] ! j)" if "j < length rs" for j
  proof (cases "j = i")
    case True
    then show ?thesis using x that by simp
  next
    case False
    then show ?thesis by (simp add: same_handles_def)
  qed
  then show ?thesis by (simp add: handles_kept_def)
qed

lemma handles_kept_choose_step:
  "choose_step i (rs, c) = (rs', c') \<Longrightarrow> handles_kept rs rs'"
proof -
  assume "choose_step i (rs, c) = (rs', c')"
  then have "rs' = rs[i := refill (rs ! i)]"
    by (auto simp: choose_step_def Let_def split: if_splits)
  then show ?thesis by (simp add: handles_kept_update same_handles_refill)
qed

lemma handles_kept_fold:
  "fold choose_step is (rs, c) = (rs', c') \<Longrightarrow> handles_kept rs rs'"
proof (induction "is" arbitrary: rs c)
  case Nil
  then show ?case by (simp add: handles_kept_refl)
next
  case (Cons i "is")
  obtain rs1 c1 where s: "choose_step i (rs, c) = (rs1, c1)" by (cases "choose_step i (rs, c)")
  then have "fold choose_step is (rs1, c1) = (rs', c')" using Cons.prems by simp
  from Cons.IH [OF this] handles_kept_choose_step [OF s] show ?case
    by (rule handles_kept_trans [rotated])
qed

lemma handles_kept_merge_loop:
  "merge_loop env n rs out = (rsF, outF, ok) \<Longrightarrow> handles_kept rs rsF"
proof (induction env n rs out arbitrary: rsF outF ok rule: merge_loop.induct)
  case (1 env n rs out)
  obtain rs' c where ch: "choose_next_merge_packet rs n = (rs', c)"
    by (cases "choose_next_merge_packet rs n")
  have k1: "handles_kept rs rs'"
    using ch handles_kept_fold by (simp add: choose_next_merge_packet_def)
  have ml: "merge_loop env n rs out =
     (if c = -1 then (rs', out, True)
      else if \<not> nat c < length rs' then (rs', out, False)
      else (case corsaro_write_packet env (length out) (nextp (rs' ! nat c)) of
              None \<Rightarrow> (rs', out, False)
            | Some p \<Rightarrow> merge_loop env n
                 (rs'[nat c := (rs' ! nat c)\<lparr>status := CORSARO_WDCAP_INTERIM_NOPACKET\<rparr>]) (out @ [p])))"
    by (subst merge_loop.simps) (simp add: ch)
  show ?case
  proof (cases "c = -1 \<or> \<not> nat c < length rs'")
    case True
    then have "merge_loop env n rs out = (rs', out, c = -1)"
      using ml by (cases "c = -1") simp_all
    then have "rsF = rs'" using "1.prems" by simp
    then show ?thesis using k1 by simp
  next
    case inr: False
    show ?thesis
    proof (cases "corsaro_write_packet env (length out) (nextp (rs' ! nat c))")
      case None
      then have "rsF = rs'" using "1.prems" ml inr by simp
      then show ?thesis using k1 by simp
    next
      case (Some p)
      let ?rs2 = "rs'[nat c := (rs' ! nat c)\<lparr>status := CORSARO_WDCAP_INTERIM_NOPACKET\<rparr>]"
      have "merge_loop env n ?rs2 (out @ [p]) = (rsF, outF, ok)"
        using "1.prems" ml inr Some by simp
      then have "handles_kept ?rs2 rsF"
        using inr by (intro "1.IH" [OF ch [symmetric] _ _ Some]) simp_all
      moreover have "handles_kept rs' ?rs2"
        by (rule handles_kept_update) (simp add: same_handles_def)
      ultimately show ?thesis using k1 by (blast intro: handles_kept_trans)
    qed
  qed
qed

lemma interim_path_scheme:
  "CHR '':'' \<notin> set scheme \<Longrightarrow> interim_path (scheme @ CHR '':'' # path) = path"
  by (simp add: interim_path_def dropWhile_append)

lemma cleanup_in_actions:
  "i < threads g \<Longrightarrow> a \<in> set (cleanup_reader (rs ! i) i) \<Longrightarrow>
   \<not> res_crashed (finish_merge env g iv w s rs out) \<Longrightarrow>
   a \<in> set (res_actions (finish_merge env g iv w s rs out))"
  by (auto simp: finish_merge_def Let_def split: if_splits)

lemma res_readers_handles:
  assumes "create_readers env (timestamp iv) [0..<threads g] rs = (rs1, ok1)"
  shows "handles_kept rs1 (res_readers (write_merged_output env g rs iv)) \<and>
         (\<exists>w s out. write_merged_output env g rs iv =
              finish_merge env g iv w s (res_readers (write_merged_output env g rs iv)) out)"
proof (cases "ok1 \<and> create_trace_writer env (derive_output_name env (timestamp iv) (-1) True 0)")
  case False
  then have "write_merged_output env g rs iv = finish_merge env g iv False False rs1 []"
    using assms by (auto simp: write_merged_output_def)
  then show ?thesis by (auto simp: finish_merge_def Let_def handles_kept_refl)
next
  case True
  obtain rs2 out ok where ml: "merge_loop env (threads g) rs1 [] = (rs2, out, ok)"
    by (cases "merge_loop env (threads g) rs1 []")
  then have "write_merged_output env g rs iv = finish_merge env g iv True ok rs2 out"
    using assms True by (simp add: write_merged_output_def)
  then show ?thesis using handles_kept_merge_loop [OF ml] by (auto simp: finish_merge_def Let_def)
qed

text \<open>
  Claim C6. When a merge attempt completes, that is when \<open>write_merged_output\<close> returns,
  with whatever result, then for every thread \<open>i\<close> whose interim file was opened by this
  merge (the set-up loop reached \<open>i\<close>, that is no earlier buffer allocation failed, and
  the reader was created) the actions of the merge contain the removal of the path
  behind the first colon of the reader's URI, the destruction of the reader and, if its
  packet buffer was allocated, the destruction of the buffer. The path is the URI without
  its scheme: for a scheme without a colon, \<open>scheme:path\<close> gives \<open>path\<close>. An attempt that is
  killed at the marker (\<open>res_crashed\<close>, see \<open>finish_merge\<close>) does not complete and removes
  nothing.
\<close>

theorem interim_files_removed:
  assumes "length rs = threads g"
    and "i < threads g"
    and "opens env (timestamp iv) i"
    and "\<forall>j<i. \<not> alloc_fails env (timestamp iv) j"
    and "\<not> res_crashed (write_merged_output env g rs iv)"
  shows "\<exists>u. derive_output_name env (timestamp iv) (int i) True 0 = Some u \<and>
           Remove (interim_path u) \<in> set (res_actions (write_merged_output env g rs iv)) \<and>
           DestroyTraceReader i \<in> set (res_actions (write_merged_output env g rs iv)) \<and>
           (create_packet env i \<longrightarrow>
              TraceDestroyPacket i \<in> set (res_actions (write_merged_output env g rs iv))) \<and>
           (\<forall>scheme path. CHR '':'' \<notin> set scheme \<longrightarrow> interim_path (scheme @ CHR '':'' # path) = path)"
proof -
  let ?ts = "timestamp iv" and ?W = "write_merged_output env g rs iv"
  obtain rs1 ok1 where cr: "create_readers env ?ts [0..<threads g] rs = (rs1, ok1)"
    by (cases "create_readers env ?ts [0..<threads g] rs")
  have r1: "rs1 ! i = new_reader env ?ts i"
    using create_readers_upt(3) [OF cr assms(1) assms(2)] assms(4) by simp
  obtain u where u: "derive_output_name env ?ts (int i) True 0 = Some u"
    using assms(3) by (auto simp: opens_def corsaro_create_trace_reader_def split: option.splits)
  have n1: "uri (rs1 ! i) = Some u" "source (rs1 ! i) \<noteq> None"
    "create_packet env i \<longrightarrow> nextp (rs1 ! i) \<noteq> None"
    using assms(3) u by (auto simp: r1 new_reader_def opens_def Let_def)
  have len1: "length rs1 = threads g" using create_readers_upt(1) [OF cr assms(1)] .
  from res_readers_handles [OF cr] obtain w s out
    where hk: "handles_kept rs1 (res_readers ?W)"
      and W: "?W = finish_merge env g iv w s (res_readers ?W) out"
    by blast
  have sh: "same_handles (rs1 ! i) (res_readers ?W ! i)"
    using hk assms(2) len1 by (simp add: handles_kept_def)
  then have n2: "uri (res_readers ?W ! i) = Some u" "source (res_readers ?W ! i) \<noteq> None"
    "create_packet env i \<longrightarrow> nextp (res_readers ?W ! i) \<noteq> None"
    using n1 by (auto simp: same_handles_def)
  have nc: "\<not> res_crashed (finish_merge env g iv w s (res_readers ?W) out)"
    using assms(5) W by simp
  have in_acts: "\<And>a. a \<in> set (cleanup_reader (res_readers ?W ! i) i) \<Longrightarrow> a \<in> set (res_actions ?W)"
    using cleanup_in_actions [OF assms(2) _ nc] W by simp
  have "Remove (interim_path u) \<in> set (cleanup_reader (res_readers ?W ! i) i)"
    "DestroyTraceReader i \<in> set (cleanup_reader (res_readers ?W ! i) i)"
    "create_packet env i \<longrightarrow> TraceDestroyPacket i \<in> set (cleanup_reader (res_readers ?W ! i) i)"
    using n2 by (auto simp: cleanup_reader_def)
  then have "Remove (interim_path u) \<in> set (res_actions ?W)"
    "DestroyTraceReader i \<in> set (res_actions ?W)"
    "create_packet env i \<longrightarrow> TraceDestroyPacket i \<in> set (res_actions ?W)"
    using in_acts by simp_all
  then show ?thesis using u by (simp add: interim_path_scheme)
qed

lemma create_done_in_finish:
  "CreateDone f \<in> set (res_actions (finish_merge env g iv w s rs out)) \<longleftrightarrow>
   s \<and> f = derive_output_name env (timestamp iv) (-1) False 1 \<and>
   marker_fopen env (derive_output_name env (timestamp iv) (-1) False 1)"
  by (auto simp: finish_merge_def stats_block_def cleanup_reader_def Let_def split: option.splits)

lemma res_crashed_finish:
  "res_crashed (finish_merge env g iv w s rs out) \<longleftrightarrow>
   s \<and> \<not> marker_fopen env (derive_output_name env (timestamp iv) (-1) False 1)"
  by (simp add: finish_merge_def Let_def)

lemma crashed_no_cleanup:
  "res_crashed (finish_merge env g iv w s rs out) \<Longrightarrow>
   Remove p \<notin> set (res_actions (finish_merge env g iv w s rs out)) \<and>
   LogDoneMerging t \<notin> set (res_actions (finish_merge env g iv w s rs out))"
  by (auto simp: finish_merge_def stats_block_def Let_def split: if_splits)

lemma write_stats_in_finish:
  "writestats g \<Longrightarrow> stats_fopen env (derive_output_name env (timestamp iv) (-1) False 2) \<Longrightarrow>
   \<exists>lines. WriteStats (derive_output_name env (timestamp iv) (-1) False 2) lines
            \<in> set (res_actions (finish_merge env g iv w s rs out))"
  by (auto simp: finish_merge_def stats_block_def Let_def)

lemma res_ret_finish: "res_ret (finish_merge env g iv w s rs out) = (if s then 0 else -1)"
  by (simp add: finish_merge_def Let_def)

lemma write_merged_output_cases:
  "write_merged_output env g rs iv =
     (let cr = create_readers env (timestamp iv) [0..<threads g] rs;
          ml = merge_loop env (threads g) (fst cr) []
      in if \<not> snd cr \<or> \<not> create_trace_writer env (derive_output_name env (timestamp iv) (-1) True 0)
         then finish_merge env g iv False False (fst cr) []
         else finish_merge env g iv True (snd (snd ml)) (fst ml) (fst (snd ml)))"
  by (simp add: write_merged_output_def Let_def split: prod.splits)

text \<open>
  Claim C3. The marker is created exactly when the merge has ended with \<open>ret\<close> 0 and the
  \<open>fopen\<close> of the marker succeeds, and then under the name rendered for the marker.
  \<open>ret\<close> is 0 exactly when no packet buffer allocation failed, the output writer was
  created and the merge loop ended because no reader had a packet left, not because a
  write failed; the loop does end that way when every write succeeds. In every other
  case \<open>ret\<close> is \<open>-1\<close> and there is no marker. A merge that ran to its end without error
  still leaves no marker when the marker cannot be opened: the program then passes
  \<open>NULL\<close> to \<open>fclose\<close> and is killed, exactly in that case, with no interim file removed
  and without the final log line.
\<close>

theorem done_marker_iff_merge_complete:
  "(CreateDone f \<in> set (res_actions (write_merged_output env g rs iv)) \<longleftrightarrow>
      f = derive_output_name env (timestamp iv) (-1) False 1 \<and>
      res_ret (write_merged_output env g rs iv) = 0 \<and>
      marker_fopen env (derive_output_name env (timestamp iv) (-1) False 1)) \<and>
   (res_crashed (write_merged_output env g rs iv) \<longleftrightarrow>
      res_ret (write_merged_output env g rs iv) = 0 \<and>
      \<not> marker_fopen env (derive_output_name env (timestamp iv) (-1) False 1)) \<and>
   (res_crashed (write_merged_output env g rs iv) \<longrightarrow>
      (\<forall>p. Remove p \<notin> set (res_actions (write_merged_output env g rs iv))) \<and>
      (\<forall>t. LogDoneMerging t \<notin> set (res_actions (write_merged_output env g rs iv)))) \<and>
   (res_ret (write_merged_output env g rs iv) = 0 \<longleftrightarrow>
      (\<forall>i<threads g. \<not> alloc_fails env (timestamp iv) i) \<and>
      create_trace_writer env (derive_output_name env (timestamp iv) (-1) True 0) \<and>
      snd (snd (merge_loop env (threads g)
                  (fst (create_readers env (timestamp iv) [0..<threads g] rs)) []))) \<and>
   (res_ret (write_merged_output env g rs iv) \<noteq> 0 \<longrightarrow>
      res_ret (write_merged_output env g rs iv) = -1) \<and>
   (length rs = threads g \<and> (\<forall>i<threads g. \<not> alloc_fails env (timestamp iv) i) \<and>
    (\<forall>k p. write_packet env k p) \<longrightarrow>
      snd (snd (merge_loop env (threads g)
                  (fst (create_readers env (timestamp iv) [0..<threads g] rs)) [])))"
proof -
  let ?ts = "timestamp iv" and ?n = "threads g"
  let ?cr = "create_readers env ?ts [0..<?n] rs"
  let ?ml = "merge_loop env ?n (fst ?cr) []"
  have flag: "snd ?cr \<longleftrightarrow> (\<forall>i<?n. \<not> alloc_fails env ?ts i)"
    by (rule create_readers_ok_flag)
  have a: "CreateDone f \<in> set (res_actions (write_merged_output env g rs iv)) \<longleftrightarrow>
      f = derive_output_name env ?ts (-1) False 1 \<and> res_ret (write_merged_output env g rs iv) = 0 \<and>
      marker_fopen env (derive_output_name env ?ts (-1) False 1)"
    by (auto simp: write_merged_output_cases Let_def create_done_in_finish res_ret_finish)
  have k: "res_crashed (write_merged_output env g rs iv) \<longleftrightarrow>
      res_ret (write_merged_output env g rs iv) = 0 \<and>
      \<not> marker_fopen env (derive_output_name env ?ts (-1) False 1)"
    by (auto simp: write_merged_output_cases Let_def res_crashed_finish res_ret_finish)
  have q: "res_crashed (write_merged_output env g rs iv) \<longrightarrow>
      (\<forall>p. Remove p \<notin> set (res_actions (write_merged_output env g rs iv))) \<and>
      (\<forall>t. LogDoneMerging t \<notin> set (res_actions (write_merged_output env g rs iv)))"
    by (auto simp: write_merged_output_cases Let_def crashed_no_cleanup split: if_splits)
  have b: "res_ret (write_merged_output env g rs iv) = 0 \<longleftrightarrow>
      (\<forall>i<?n. \<not> alloc_fails env ?ts i) \<and>
      create_trace_writer env (derive_output_name env ?ts (-1) True 0) \<and> snd (snd ?ml)"
    using flag by (auto simp: write_merged_output_cases Let_def res_ret_finish)
  have c: "res_ret (write_merged_output env g rs iv) \<noteq> 0 \<longrightarrow>
      res_ret (write_merged_output env g rs iv) = -1"
    by (auto simp: write_merged_output_cases Let_def res_ret_finish)
  have d: "snd (snd ?ml)"
    if len: "length rs = ?n" and nf: "\<forall>i<?n. \<not> alloc_fails env ?ts i"
      and wr: "\<forall>k p. write_packet env k p"
  proof -
    obtain rs1 ok1 where cr: "?cr = (rs1, ok1)" by (cases ?cr)
    obtain rs2 out ok where ml: "merge_loop env ?n rs1 [] = (rs2, out, ok)"
      by (cases "merge_loop env ?n rs1 []")
    have "\<forall>i<?n. wf_reader (rs1 ! i)"
      using create_readers_upt(3) [OF cr len] nf by (simp add: wf_new_reader)
    from merge_loop_inv [OF create_readers_upt(1) [OF cr len] this ml] wr have ok by blast
    then show ?thesis using cr ml by simp
  qed
  show ?thesis using a k q b c d by blast
qed

text \<open>
  Claim C10. With statistics enabled, the statistics file is written in every run of
  \<open>write_merged_output\<close> in which it can be opened, whether or not the merge succeeded.
\<close>

theorem stats_written_even_on_failure:
  assumes "writestats g"
    and "stats_fopen env (derive_output_name env (timestamp iv) (-1) False 2)"
  shows "\<exists>lines. WriteStats (derive_output_name env (timestamp iv) (-1) False 2) lines
            \<in> set (res_actions (write_merged_output env g rs iv))"
  unfolding write_merged_output_cases Let_def
  using write_stats_in_finish [OF assms] by (simp split: if_splits)

subsection \<open>A merge of two interim files\<close>

text \<open>
  Two threads; thread 0 wrote packets with timestamps 10 and 35, thread 1 packets with
  timestamps 20 and 599. The readers start as \<open>calloc\<close> leaves them.
\<close>

definition calloc_reader :: interim_reader where
  "calloc_reader = \<lparr>uri = None, source = None, nextp = None, nextp_ts = 0,
                    status = CORSARO_WDCAP_INTERIM_NOPACKET\<rparr>"

text \<open>A natural number in decimal digits, as \<open>snprintf\<close> prints it for \<open>%d\<close>.\<close>

fun decimal :: "nat \<Rightarrow> string" where
  "decimal n =
     (if n < 10 then [''0123456789'' ! n]
      else decimal (n div 10) @ [''0123456789'' ! (n mod 10)])"

declare decimal.simps [simp del]

text \<open>
  The names that \<open>corsaro_wdcap_derive_output_name\<close> renders for the template \<open>/trace\<close> and
  the format \<open>pcapfile\<close>: the format in front when asked for, then \<open>--\<close> and the thread id
  for a thread id that is not negative, otherwise the extension.
\<close>

definition demo_name :: "32 word \<Rightarrow> int \<Rightarrow> bool \<Rightarrow> nat \<Rightarrow> string option" where
  "demo_name ts threadid needformat exttype =
     Some ((if needformat then ''pcapfile:'' else []) @ ''/trace'' @
           (if threadid \<ge> 0 then ''--'' @ decimal (nat threadid)
            else if exttype = 1 then ''.done'' else if exttype = 2 then ''.stats'' else []))"

definition demo_env :: merge_env where
  "demo_env =
     \<lparr>derive_output_name = demo_name,
      create_trace_reader =
        (\<lambda>u. if u = ''pcapfile:/trace--0''
               then Some [\<lparr>erf_ts = 10, payload = 0\<rparr>, \<lparr>erf_ts = 35, payload = 1\<rparr>]
             else if u = ''pcapfile:/trace--1''
               then Some [\<lparr>erf_ts = 20, payload = 2\<rparr>, \<lparr>erf_ts = 599, payload = 3\<rparr>]
             else None),
      create_packet = (\<lambda>i. True),
      create_trace_writer = (\<lambda>name. True),
      write_packet = (\<lambda>k p. True),
      stats_fopen = (\<lambda>name. True),
      done_fopen = (\<lambda>name. True),
      msec_before = 100,
      msec_after = 107\<rparr>"

definition demo_glob :: wdcap_global where
  "demo_glob = \<lparr>threads = 2, interval = 60, writestats = True\<rparr>"

definition demo_interval :: wdcap_interval where
  "demo_interval = \<lparr>timestamp = 1700000000, threads_done = 2, thread_ids = [0, 1],
                     thread_stats = [zero_stat, zero_stat]\<rparr>"

lemma upt_0_2: "[0..<2] = [0, Suc 0]"
  by (simp add: upt_rec)

lemma decimal_digit [simp]: "n < 10 \<Longrightarrow> decimal n = [''0123456789'' ! n]"
  by (simp add: decimal.simps)

lemmas demo_eval =
  write_merged_output_def create_readers.simps finish_merge_def merge_loop.simps
  choose_next_merge_packet_def choose_step_def refill_def corsaro_read_next_packet_def
  trace_get_erf_timestamp_def corsaro_write_packet_def corsaro_create_trace_reader_def
  demo_env_def demo_glob_def demo_interval_def demo_name_def calloc_reader_def upt_0_2
  stats_block_def cleanup_reader_def interim_path_def marker_fopen_def Let_def

lemma demo_written:
  "res_written (write_merged_output demo_env demo_glob [calloc_reader, calloc_reader] demo_interval) =
     [\<lparr>erf_ts = 10, payload = 0\<rparr>, \<lparr>erf_ts = 20, payload = 2\<rparr>,
      \<lparr>erf_ts = 35, payload = 1\<rparr>, \<lparr>erf_ts = 599, payload = 3\<rparr>]"
  by (simp add: demo_eval)

lemma demo_ret:
  "res_ret (write_merged_output demo_env demo_glob [calloc_reader, calloc_reader] demo_interval) = 0"
  by (simp add: demo_eval)


lemma no_marker_when_failed:
  "res_ret (write_merged_output env g rs iv) \<noteq> 0 \<Longrightarrow>
   CreateDone f \<notin> set (res_actions (write_merged_output env g rs iv))"
  by (auto simp: write_merged_output_cases Let_def create_done_in_finish res_ret_finish
           split: if_splits)

text \<open>
  A run in which the second write fails, one in which the writer cannot be created, and
  one in which everything succeeds until the marker cannot be opened.
\<close>

definition write_fail_env :: merge_env where
  "write_fail_env = demo_env\<lparr>write_packet := (\<lambda>k p. k < 1)\<rparr>"

definition no_writer_env :: merge_env where
  "no_writer_env = demo_env\<lparr>create_trace_writer := (\<lambda>name. False)\<rparr>"

definition marker_fail_env :: merge_env where
  "marker_fail_env = demo_env\<lparr>done_fopen := (\<lambda>name. False)\<rparr>"

theorem merged_output_sorted_and_complete_witness:
  "length [calloc_reader, calloc_reader] = threads demo_glob \<and>
   sorted (map erf_ts (interim_packets demo_env (timestamp demo_interval) 0)) \<and>
   sorted (map erf_ts (interim_packets demo_env (timestamp demo_interval) 1)) \<and>
   res_ret (write_merged_output demo_env demo_glob [calloc_reader, calloc_reader] demo_interval) = 0 \<and>
   res_written (write_merged_output demo_env demo_glob [calloc_reader, calloc_reader] demo_interval) =
     [\<lparr>erf_ts = 10, payload = 0\<rparr>, \<lparr>erf_ts = 20, payload = 2\<rparr>,
      \<lparr>erf_ts = 35, payload = 1\<rparr>, \<lparr>erf_ts = 599, payload = 3\<rparr>] \<and>
   sorted (map erf_ts
     (res_written (write_merged_output demo_env demo_glob [calloc_reader, calloc_reader] demo_interval)))"
proof -
  have h1: "length [calloc_reader, calloc_reader] = threads demo_glob"
    by (simp add: demo_glob_def)
  have s0: "sorted (map erf_ts (interim_packets demo_env (timestamp demo_interval) 0))"
    and s1: "sorted (map erf_ts (interim_packets demo_env (timestamp demo_interval) 1))"
    by (simp_all add: interim_packets_def corsaro_create_trace_reader_def demo_env_def demo_name_def)
  have h2: "\<forall>i<threads demo_glob.
              sorted (map erf_ts (interim_packets demo_env (timestamp demo_interval) i))"
    using s0 s1 by (auto simp: demo_glob_def less_Suc_eq numeral_2_eq_2)
  show ?thesis
    using h1 s0 s1 demo_written demo_ret merged_output_sorted_and_complete [OF h1 h2] by simp
qed

theorem interim_files_removed_witness:
  "length [calloc_reader, calloc_reader] = threads demo_glob \<and> 1 < threads demo_glob \<and>
   opens write_fail_env (timestamp demo_interval) 1 \<and>
   \<not> alloc_fails write_fail_env (timestamp demo_interval) 0 \<and>
   \<not> res_crashed
       (write_merged_output write_fail_env demo_glob [calloc_reader, calloc_reader] demo_interval) \<and>
   res_ret (write_merged_output write_fail_env demo_glob [calloc_reader, calloc_reader] demo_interval) = -1 \<and>
   Remove ''/trace--1'' \<in> set (res_actions
      (write_merged_output write_fail_env demo_glob [calloc_reader, calloc_reader] demo_interval)) \<and>
   DestroyTraceReader 1 \<in> set (res_actions
      (write_merged_output write_fail_env demo_glob [calloc_reader, calloc_reader] demo_interval)) \<and>
   TraceDestroyPacket 1 \<in> set (res_actions
      (write_merged_output write_fail_env demo_glob [calloc_reader, calloc_reader] demo_interval))"
proof -
  have h1: "length [calloc_reader, calloc_reader] = threads demo_glob"
    by (simp add: demo_glob_def)
  have h2: "1 < threads demo_glob" by (simp add: demo_glob_def)
  have h3: "opens write_fail_env (timestamp demo_interval) 1"
    by (simp add: opens_def corsaro_create_trace_reader_def write_fail_env_def demo_env_def demo_name_def)
  have h0: "\<not> alloc_fails write_fail_env (timestamp demo_interval) 0"
    by (simp add: alloc_fails_def write_fail_env_def demo_env_def)
  then have h4: "\<forall>j<1. \<not> alloc_fails write_fail_env (timestamp demo_interval) j" by simp
  have r: "res_ret (write_merged_output write_fail_env demo_glob [calloc_reader, calloc_reader]
             demo_interval) = -1"
    by (simp add: demo_eval write_fail_env_def)
  have n: "derive_output_name write_fail_env (timestamp demo_interval) (int 1) True 0
             = Some ''pcapfile:/trace--1''"
    by (simp add: write_fail_env_def demo_env_def demo_name_def)
  have c: "create_packet write_fail_env 1" by (simp add: write_fail_env_def demo_env_def)
  have p: "interim_path ''pcapfile:/trace--1'' = ''/trace--1''" by (simp add: interim_path_def)
  have h5: "\<not> res_crashed
       (write_merged_output write_fail_env demo_glob [calloc_reader, calloc_reader] demo_interval)"
    by (simp add: demo_eval write_fail_env_def)
  from interim_files_removed [OF h1 h2 h3 h4 h5] obtain u
    where u: "derive_output_name write_fail_env (timestamp demo_interval) (int 1) True 0 = Some u"
      and rm: "Remove (interim_path u) \<in> set (res_actions
        (write_merged_output write_fail_env demo_glob [calloc_reader, calloc_reader] demo_interval))"
      and dr: "DestroyTraceReader 1 \<in> set (res_actions
        (write_merged_output write_fail_env demo_glob [calloc_reader, calloc_reader] demo_interval))"
      and dp: "create_packet write_fail_env 1 \<longrightarrow> TraceDestroyPacket 1 \<in> set (res_actions
        (write_merged_output write_fail_env demo_glob [calloc_reader, calloc_reader] demo_interval))"
    by blast
  have "u = ''pcapfile:/trace--1''" using u n by simp
  then have "Remove ''/trace--1'' \<in> set (res_actions
        (write_merged_output write_fail_env demo_glob [calloc_reader, calloc_reader] demo_interval))"
    using rm p by simp
  then show ?thesis using h1 h2 h3 h0 h5 r c dr dp by blast
qed

theorem done_marker_iff_merge_complete_witness:
  "CreateDone (Some ''/trace.done'') \<in> set (res_actions
      (write_merged_output demo_env demo_glob [calloc_reader, calloc_reader] demo_interval)) \<and>
   res_ret (write_merged_output demo_env demo_glob [calloc_reader, calloc_reader] demo_interval) = 0 \<and>
   CreateDone (Some ''/trace.done'') \<notin> set (res_actions
      (write_merged_output write_fail_env demo_glob [calloc_reader, calloc_reader] demo_interval)) \<and>
   res_ret (write_merged_output write_fail_env demo_glob [calloc_reader, calloc_reader] demo_interval) = -1 \<and>
   res_written
      (write_merged_output marker_fail_env demo_glob [calloc_reader, calloc_reader] demo_interval) =
     [\<lparr>erf_ts = 10, payload = 0\<rparr>, \<lparr>erf_ts = 20, payload = 2\<rparr>,
      \<lparr>erf_ts = 35, payload = 1\<rparr>, \<lparr>erf_ts = 599, payload = 3\<rparr>] \<and>
   res_ret (write_merged_output marker_fail_env demo_glob [calloc_reader, calloc_reader] demo_interval) = 0 \<and>
   CreateDone (Some ''/trace.done'') \<notin> set (res_actions
      (write_merged_output marker_fail_env demo_glob [calloc_reader, calloc_reader] demo_interval)) \<and>
   res_crashed
      (write_merged_output marker_fail_env demo_glob [calloc_reader, calloc_reader] demo_interval) \<and>
   Remove ''/trace--0'' \<notin> set (res_actions
      (write_merged_output marker_fail_env demo_glob [calloc_reader, calloc_reader] demo_interval)) \<and>
   Remove ''/trace--1'' \<notin> set (res_actions
      (write_merged_output marker_fail_env demo_glob [calloc_reader, calloc_reader] demo_interval))"
proof -
  have n: "derive_output_name demo_env (timestamp demo_interval) (-1) False 1 = Some ''/trace.done''"
    by (simp add: demo_env_def demo_name_def)
  have o: "marker_fopen demo_env (Some ''/trace.done'')"
    by (simp add: marker_fopen_def demo_env_def)
  have r: "res_ret (write_merged_output write_fail_env demo_glob [calloc_reader, calloc_reader]
             demo_interval) = -1"
    by (simp add: demo_eval write_fail_env_def)
  have n': "derive_output_name marker_fail_env (timestamp demo_interval) (-1) False 1
              = Some ''/trace.done''"
    by (simp add: marker_fail_env_def demo_env_def demo_name_def)
  have o': "\<not> marker_fopen marker_fail_env (Some ''/trace.done'')"
    by (simp add: marker_fopen_def marker_fail_env_def demo_env_def)
  have r': "res_ret (write_merged_output marker_fail_env demo_glob [calloc_reader, calloc_reader]
             demo_interval) = 0"
    by (simp add: demo_eval marker_fail_env_def)
  have w': "res_written
      (write_merged_output marker_fail_env demo_glob [calloc_reader, calloc_reader] demo_interval) =
     [\<lparr>erf_ts = 10, payload = 0\<rparr>, \<lparr>erf_ts = 20, payload = 2\<rparr>,
      \<lparr>erf_ts = 35, payload = 1\<rparr>, \<lparr>erf_ts = 599, payload = 3\<rparr>]"
    by (simp add: demo_eval marker_fail_env_def)
  note t1 = done_marker_iff_merge_complete [of "Some ''/trace.done''" demo_env demo_glob
        "[calloc_reader, calloc_reader]" demo_interval, THEN conjunct1]
  note t2 = done_marker_iff_merge_complete [of "Some ''/trace.done''" write_fail_env demo_glob
        "[calloc_reader, calloc_reader]" demo_interval, THEN conjunct1]
  note t3 = done_marker_iff_merge_complete [of "Some ''/trace.done''" marker_fail_env demo_glob
        "[calloc_reader, calloc_reader]" demo_interval]
  have a: "CreateDone (Some ''/trace.done'') \<in> set (res_actions
      (write_merged_output demo_env demo_glob [calloc_reader, calloc_reader] demo_interval))"
    using t1 demo_ret n o by simp
  have b: "CreateDone (Some ''/trace.done'') \<notin> set (res_actions
      (write_merged_output write_fail_env demo_glob [calloc_reader, calloc_reader] demo_interval))"
    using t2 r by simp
  have c: "CreateDone (Some ''/trace.done'') \<notin> set (res_actions
      (write_merged_output marker_fail_env demo_glob [calloc_reader, calloc_reader] demo_interval))"
    using t3 [THEN conjunct1] n' o' by simp
  have k: "res_crashed
      (write_merged_output marker_fail_env demo_glob [calloc_reader, calloc_reader] demo_interval)"
    using t3 [THEN conjunct2, THEN conjunct1] r' n' o' by simp
  have q: "Remove p \<notin> set (res_actions
      (write_merged_output marker_fail_env demo_glob [calloc_reader, calloc_reader] demo_interval))"
    for p
    using t3 [THEN conjunct2, THEN conjunct2, THEN conjunct1] k by blast
  show ?thesis using a b c k q demo_ret r r' w' by blast
qed

theorem stats_written_even_on_failure_witness:
  "writestats demo_glob \<and>
   stats_fopen no_writer_env (derive_output_name no_writer_env (timestamp demo_interval) (-1) False 2) \<and>
   (\<exists>lines. WriteStats (Some ''/trace.stats'') lines \<in> set (res_actions
      (write_merged_output no_writer_env demo_glob [calloc_reader, calloc_reader] demo_interval))) \<and>
   res_ret (write_merged_output no_writer_env demo_glob [calloc_reader, calloc_reader] demo_interval) = -1 \<and>
   CreateDone (Some ''/trace.done'') \<notin> set (res_actions
      (write_merged_output no_writer_env demo_glob [calloc_reader, calloc_reader] demo_interval))"
proof -
  have h1: "writestats demo_glob" by (simp add: demo_glob_def)
  have h2: "stats_fopen no_writer_env
              (derive_output_name no_writer_env (timestamp demo_interval) (-1) False 2)"
    by (simp add: no_writer_env_def demo_env_def)
  have n: "derive_output_name no_writer_env (timestamp demo_interval) (-1) False 2
             = Some ''/trace.stats''"
    by (simp add: no_writer_env_def demo_env_def demo_name_def)
  have r: "res_ret (write_merged_output no_writer_env demo_glob [calloc_reader, calloc_reader]
             demo_interval) = -1"
    by (simp add: demo_eval no_writer_env_def)
  have d: "CreateDone (Some ''/trace.done'') \<notin> set (res_actions
      (write_merged_output no_writer_env demo_glob [calloc_reader, calloc_reader] demo_interval))"
    using r no_marker_when_failed by simp
  have "\<exists>lines. WriteStats (Some ''/trace.stats'') lines \<in> set (res_actions
      (write_merged_output no_writer_env demo_glob [calloc_reader, calloc_reader] demo_interval))"
    using stats_written_even_on_failure [OF h1 h2, of "[calloc_reader, calloc_reader]"]
    by (simp only: n)
  then show ?thesis using h1 h2 r d by blast
qed

subsection \<open>The merging thread\<close>

text \<open>
  A message on the internal queue. The type is one of the two known tags or any other
  number.
\<close>

datatype message_type =
    CORSARO_WDCAP_MSG_STOP
  | CORSARO_WDCAP_MSG_INTERVAL_DONE
  | MSG_OTHER nat

record wdcap_message =
  mtype :: message_type
  threadid :: "8 word"
  msg_timestamp :: "32 word"
  src_fd :: int
  lt_stats :: libtrace_stat

text \<open>
  The state of the merging thread: the array of readers and the list \<open>waiting\<close> of
  intervals that some but not all threads have finished, in the order of the linked list.
\<close>

record wdcap_merger =
  readers :: "interim_reader list"
  waiting :: "wdcap_interval list"

text \<open>
  \<open>merge_finished_interval\<close>. The search stops at the first entry with the timestamp;
  \<open>before\<close> are the entries in front of it and \<open>after\<close> those behind it. A new entry is
  appended to the list, with arrays of \<open>glob->threads\<close> elements (what \<open>malloc\<close> leaves in
  them is taken to be 0). When the last thread has reported, the interval is merged and
  \<open>mergestate->waiting = fin->next\<close> makes the list start behind the merged entry. The
  result is the new state, the returned number, the actions, and whether the process was
  killed inside the merge: then the entry is still in the list, \<open>ret\<close> is still 0 and
  nothing is returned.
\<close>

definition merge_finished_interval ::
  "merge_env \<Rightarrow> wdcap_global \<Rightarrow> wdcap_merger \<Rightarrow> 8 word \<Rightarrow> 32 word \<Rightarrow> libtrace_stat \<Rightarrow>
   wdcap_merger \<times> int \<times> action list \<times> bool"
where
  "merge_finished_interval env g ms tid ts st =
     (let before = takeWhile (\<lambda>w. timestamp w \<noteq> ts) (waiting ms);
          found = dropWhile (\<lambda>w. timestamp w \<noteq> ts) (waiting ms);
          fin = (case found of
                   [] \<Rightarrow>
                     \<lparr>timestamp = ts, threads_done = 1,
                      thread_ids = (replicate (threads g) 0)[0 := tid],
                      thread_stats = (replicate (threads g) zero_stat)[0 := st]\<rparr>
                 | w # ws \<Rightarrow>
                     w\<lparr>thread_ids := (thread_ids w)[threads_done w := tid],
                       thread_stats := (thread_stats w)[threads_done w := st],
                       threads_done := threads_done w + 1\<rparr>);
          after = (case found of [] \<Rightarrow> [] | w # ws \<Rightarrow> ws)
      in if threads_done fin = threads g then
           (let warning = (if before \<noteq> [] then [LogOutOfOrder (timestamp (hd before)) ts] else []);
                r = write_merged_output env g (readers ms) fin
            in if res_crashed r
               then (ms\<lparr>readers := res_readers r, waiting := before @ fin # after\<rparr>, 0,
                     warning @ res_actions r, True)
               else if res_ret r < 0
               then (ms\<lparr>readers := res_readers r, waiting := after\<rparr>, -1,
                     warning @ res_actions r @ [LogMergeFailed ts], False)
               else (ms\<lparr>readers := res_readers r, waiting := after\<rparr>, 1,
                     warning @ res_actions r, False))
         else (ms\<lparr>waiting := before @ fin # after\<rparr>, 0, [], False))"

text \<open>What \<open>zmq_recv\<close> gives the merging thread: a failure or a message.\<close>

datatype received = RecvFailed | Recv wdcap_message

datatype thread_end =
    AwaitingMessage
  | ThreadExit
  | ProcessExit int
  | ProcessKilled

text \<open>
  The \<open>while (1)\<close> loop of \<open>start_merging_thread\<close> over what the thread receives, with the
  state of the merger, the counter \<open>badmessages\<close> and the actions so far. It ends the
  thread on a failed receive or a stop message and the whole process, with \<open>exit(-1)\<close>,
  when the counter has reached 100; when nothing more is received the thread waits. A
  merge that kills the process ends the loop where it stands.
\<close>

fun merging_loop ::
  "merge_env \<Rightarrow> wdcap_global \<Rightarrow> received list \<Rightarrow> wdcap_merger \<Rightarrow> int \<Rightarrow> action list \<Rightarrow>
   thread_end \<times> wdcap_merger \<times> int \<times> action list"
where
  "merging_loop env g [] ms badmessages acts = (AwaitingMessage, ms, badmessages, acts)"
| "merging_loop env g (RecvFailed # rest) ms badmessages acts =
     (ThreadExit, ms, badmessages, acts @ [LogRecvError])"
| "merging_loop env g (Recv msg # rest) ms badmessages acts =
     (case mtype msg of
        CORSARO_WDCAP_MSG_STOP \<Rightarrow> (ThreadExit, ms, badmessages, acts)
      | CORSARO_WDCAP_MSG_INTERVAL_DONE \<Rightarrow>
          (case merge_finished_interval env g ms (threadid msg) (msg_timestamp msg) (lt_stats msg) of
             (ms', ret, macts, killed) \<Rightarrow>
               if killed
               then (ProcessKilled, ms', badmessages,
                     acts @ (if src_fd msg \<noteq> -1 then [CloseFd (src_fd msg)] else []) @ macts)
               else merging_loop env g rest ms' badmessages
                      (acts @ (if src_fd msg \<noteq> -1 then [CloseFd (src_fd msg)] else []) @ macts))
      | MSG_OTHER t \<Rightarrow>
          if badmessages + 1 \<ge> 100
          then (ProcessExit (-1), ms, badmessages + 1,
                acts @ [LogUnexpectedMessage t, LogTooManyBadMessages])
          else merging_loop env g rest ms (badmessages + 1) (acts @ [LogUnexpectedMessage t]))"

text \<open>
  The thread: its state is created, the loop runs, and when the loop is left the intervals
  still waiting are freed.
\<close>

definition start_merging_thread ::
  "merge_env \<Rightarrow> wdcap_global \<Rightarrow> received list \<Rightarrow> thread_end \<times> wdcap_merger \<times> int \<times> action list"
where
  "start_merging_thread env g input =
     (case merging_loop env g input
             \<lparr>readers = replicate (threads g) calloc_reader, waiting = []\<rparr> 0 [] of
        (ThreadExit, ms, badmessages, acts) \<Rightarrow> (ThreadExit, ms\<lparr>waiting := []\<rparr>, badmessages, acts)
      | r \<Rightarrow> r)"

definition unknown_tag :: "received \<Rightarrow> bool" where
  "unknown_tag r =
     (case r of RecvFailed \<Rightarrow> False
      | Recv msg \<Rightarrow> (case mtype msg of MSG_OTHER t \<Rightarrow> True | _ \<Rightarrow> False))"

definition logged_unexpected :: "action \<Rightarrow> bool" where
  "logged_unexpected a = (case a of LogUnexpectedMessage t \<Rightarrow> True | _ \<Rightarrow> False)"

lemma finish_merge_no_unexpected:
  "filter logged_unexpected (res_actions (finish_merge env g iv w s rs out)) = []"
  by (auto simp: finish_merge_def stats_block_def cleanup_reader_def logged_unexpected_def
                 Let_def filter_empty_conv split: option.splits)

lemma write_merged_output_no_unexpected:
  "filter logged_unexpected (res_actions (write_merged_output env g rs iv)) = []"
  by (simp add: write_merged_output_cases Let_def finish_merge_no_unexpected)

lemma merge_finished_interval_no_unexpected:
  "merge_finished_interval env g ms tid ts st = (ms', ret, macts, killed) \<Longrightarrow>
   filter logged_unexpected macts = []"
  by (auto simp: merge_finished_interval_def Let_def write_merged_output_no_unexpected
                 logged_unexpected_def split: if_splits)

lemma merging_loop_counts:
  assumes "merging_loop env g input ms bad acts = (e, ms', bad', acts')"
    and "bad < 100"
  shows "bad' - bad = int (length (filter logged_unexpected acts')) - int (length (filter logged_unexpected acts)) \<and>
         bad \<le> bad' \<and> bad' \<le> bad + int (length (filter unknown_tag input)) \<and>
         ((\<exists>c. e = ProcessExit c) \<longleftrightarrow> bad' = 100) \<and> bad' \<le> 100 \<and>
         (\<forall>c. e = ProcessExit c \<longrightarrow> c = -1) \<and>
         (e = AwaitingMessage \<longrightarrow> bad' = bad + int (length (filter unknown_tag input)))"
  using assms
proof (induction env g input ms bad acts rule: merging_loop.induct)
  case (1 env g ms badmessages acts)
  then show ?case by simp
next
  case (2 env g rest ms badmessages acts)
  then show ?case by (auto simp: logged_unexpected_def)
next
  case (3 env g msg rest ms badmessages acts)
  show ?case
  proof (cases "mtype msg")
    case CORSARO_WDCAP_MSG_STOP
    then show ?thesis using "3.prems" by auto
  next
    case CORSARO_WDCAP_MSG_INTERVAL_DONE
    obtain ms1 ret macts killed where m:
      "merge_finished_interval env g ms (threadid msg) (msg_timestamp msg) (lt_stats msg)
         = (ms1, ret, macts, killed)"
      by (cases "merge_finished_interval env g ms (threadid msg) (msg_timestamp msg) (lt_stats msg)")
    let ?acts1 = "acts @ (if src_fd msg \<noteq> -1 then [CloseFd (src_fd msg)] else []) @ macts"
    have same: "filter logged_unexpected ?acts1 = filter logged_unexpected acts"
      using merge_finished_interval_no_unexpected [OF m] by (simp add: logged_unexpected_def)
    show ?thesis
    proof (cases killed)
      case True
      then have "(e, ms', bad', acts') = (ProcessKilled, ms1, badmessages, ?acts1)"
        using "3.prems"(1) CORSARO_WDCAP_MSG_INTERVAL_DONE m by simp
      then show ?thesis using same "3.prems"(2) by auto
    next
      case False
      have rec: "merging_loop env g rest ms1 badmessages ?acts1 = (e, ms', bad', acts')"
        using "3.prems"(1) CORSARO_WDCAP_MSG_INTERVAL_DONE m False by simp
      from "3.IH"(1) [OF CORSARO_WDCAP_MSG_INTERVAL_DONE m [symmetric] refl refl False rec "3.prems"(2)]
      show ?thesis using same CORSARO_WDCAP_MSG_INTERVAL_DONE by (simp add: unknown_tag_def)
    qed
  next
    case (MSG_OTHER t)
    show ?thesis
    proof (cases "badmessages + 1 \<ge> 100")
      case True
      then show ?thesis using "3.prems" MSG_OTHER
        by (auto simp: logged_unexpected_def unknown_tag_def)
    next
      case False
      then have rec: "merging_loop env g rest ms (badmessages + 1) (acts @ [LogUnexpectedMessage t])
                      = (e, ms', bad', acts')"
        using "3.prems"(1) MSG_OTHER by simp
      have lt: "badmessages + 1 < 100" using False by simp
      from "3.IH"(2) [OF MSG_OTHER False rec lt]
      show ?thesis using MSG_OTHER by (auto simp: logged_unexpected_def unknown_tag_def)
    qed
  qed
qed

definition thread_outcome :: "thread_end \<times> wdcap_merger \<times> int \<times> action list \<Rightarrow> thread_end" where
  "thread_outcome r = fst r"


definition thread_badmessages :: "thread_end \<times> wdcap_merger \<times> int \<times> action list \<Rightarrow> int" where
  "thread_badmessages r = fst (snd (snd r))"

definition thread_actions :: "thread_end \<times> wdcap_merger \<times> int \<times> action list \<Rightarrow> action list" where
  "thread_actions r = snd (snd (snd r))"

lemma start_merging_thread_counts:
  "thread_badmessages (start_merging_thread env g input) =
     int (length (filter logged_unexpected (thread_actions (start_merging_thread env g input)))) \<and>
   thread_badmessages (start_merging_thread env g input) \<le> int (length (filter unknown_tag input)) \<and>
   ((\<exists>c. thread_outcome (start_merging_thread env g input) = ProcessExit c) \<longleftrightarrow>
      thread_badmessages (start_merging_thread env g input) = 100) \<and>
   thread_badmessages (start_merging_thread env g input) \<le> 100 \<and>
   (\<forall>c. thread_outcome (start_merging_thread env g input) = ProcessExit c \<longrightarrow> c = -1) \<and>
   (thread_outcome (start_merging_thread env g input) = AwaitingMessage \<longrightarrow>
      thread_badmessages (start_merging_thread env g input) = int (length (filter unknown_tag input)))"
proof -
  let ?ms0 = "\<lparr>readers = replicate (threads g) calloc_reader, waiting = []\<rparr>"
  obtain e ms bad acts where r: "merging_loop env g input ?ms0 0 [] = (e, ms, bad, acts)"
    by (cases "merging_loop env g input ?ms0 0 []") auto
  have s: "start_merging_thread env g input =
             (e, if e = ThreadExit then ms\<lparr>waiting := []\<rparr> else ms, bad, acts)"
    using r by (cases e) (simp_all add: start_merging_thread_def)
  from merging_loop_counts [OF r] show ?thesis
    by (auto simp: s thread_badmessages_def thread_actions_def thread_outcome_def)
qed

text \<open>
  Claim C8, as the program has it. The merging thread ends the process, with status
  \<open>-1\<close>, exactly when its counter of messages with an unknown tag has reached 100, that
  is on the hundredth such message: with fewer than 100 of them in what it receives the
  thread never ends the process that way. Every such message that the thread takes from
  the queue is logged and counted: the counter equals the number of logged messages, and
  equals the number of unknown tags received when the thread has handled its whole input.
\<close>

theorem merging_thread_exits_at_hundredth_bad_message:
  "(length (filter unknown_tag input) < 100 \<longrightarrow>
      (\<forall>c. thread_outcome (start_merging_thread env g input) \<noteq> ProcessExit c)) \<and>
   ((\<exists>c. thread_outcome (start_merging_thread env g input) = ProcessExit c) \<longleftrightarrow>
      thread_badmessages (start_merging_thread env g input) = 100) \<and>
   (\<forall>c. thread_outcome (start_merging_thread env g input) = ProcessExit c \<longrightarrow> c = -1) \<and>
   thread_badmessages (start_merging_thread env g input) =
     int (length (filter logged_unexpected (thread_actions (start_merging_thread env g input)))) \<and>
   (thread_outcome (start_merging_thread env g input) = AwaitingMessage \<longrightarrow>
      thread_badmessages (start_merging_thread env g input) = int (length (filter unknown_tag input)))"
proof -
  note c = start_merging_thread_counts [of env g input]
  have "\<forall>c. thread_outcome (start_merging_thread env g input) \<noteq> ProcessExit c"
    if "length (filter unknown_tag input) < 100"
  proof -
    have "thread_badmessages (start_merging_thread env g input) < 100" using c that by linarith
    then show ?thesis using c by auto
  qed
  then show ?thesis using c by blast
qed

definition odd_message :: wdcap_message where
  "odd_message = \<lparr>mtype = MSG_OTHER 7, threadid = 0, msg_timestamp = 0, src_fd = -1,
                  lt_stats = zero_stat\<rparr>"

definition stop_message :: wdcap_message where
  "stop_message = \<lparr>mtype = CORSARO_WDCAP_MSG_STOP, threadid = 0, msg_timestamp = 0, src_fd = -1,
                   lt_stats = zero_stat\<rparr>"

lemma merging_loop_odd_messages:
  "bad + int k < 100 \<Longrightarrow>
   merging_loop env g (replicate k (Recv odd_message) @ rest) ms bad acts =
   merging_loop env g rest ms (bad + int k) (acts @ replicate k (LogUnexpectedMessage 7))"
proof (induction k arbitrary: bad acts)
  case 0
  then show ?case by simp
next
  case (Suc k)
  have step: "merging_loop env g (replicate (Suc k) (Recv odd_message) @ rest) ms bad acts =
        merging_loop env g (replicate k (Recv odd_message) @ rest) ms (bad + 1)
          (acts @ [LogUnexpectedMessage 7])"
    using Suc.prems by (simp add: odd_message_def)
  have ih: "merging_loop env g (replicate k (Recv odd_message) @ rest) ms (bad + 1)
          (acts @ [LogUnexpectedMessage 7]) =
        merging_loop env g rest ms (bad + 1 + int k)
          ((acts @ [LogUnexpectedMessage 7]) @ replicate k (LogUnexpectedMessage 7))"
    using Suc.prems by (intro Suc.IH) simp
  have n: "bad + 1 + int k = bad + int (Suc k)" by simp
  have l: "(acts @ [LogUnexpectedMessage 7]) @ replicate k (LogUnexpectedMessage 7) =
           acts @ replicate (Suc k) (LogUnexpectedMessage 7)" by simp
  show ?case by (simp only: step ih n l)
qed

text \<open>
  The claim as stated fails: a hundred messages with an unknown tag, no more, end the
  process.
\<close>

theorem hundred_bad_messages_exit_counterexample:
  "length (filter unknown_tag (replicate 100 (Recv odd_message))) \<le> 100 \<and>
   thread_outcome (start_merging_thread demo_env demo_glob (replicate 100 (Recv odd_message)))
     = ProcessExit (-1)"
proof -
  have "(100::nat) = Suc 99" by simp
  then have r: "replicate 100 (Recv odd_message) = replicate 99 (Recv odd_message) @ [Recv odd_message]"
    by (metis replicate_Suc replicate_append_same)
  have l: "merging_loop env g (replicate 99 (Recv odd_message) @ [Recv odd_message]) ms 0 [] =
        merging_loop env g [Recv odd_message] ms 99 (replicate 99 (LogUnexpectedMessage 7))" for env g ms
    using merging_loop_odd_messages [of 0 99 env g "[Recv odd_message]" ms "[]"] by simp
  have m: "merging_loop env g (replicate 100 (Recv odd_message)) ms 0 [] =
        (ProcessExit (-1), ms, 100,
         replicate 99 (LogUnexpectedMessage 7) @ [LogUnexpectedMessage 7, LogTooManyBadMessages])"
    for env g ms
    by (subst r, subst l) (simp add: odd_message_def)
  have "thread_outcome (start_merging_thread demo_env demo_glob
                     (replicate 100 (Recv odd_message))) = ProcessExit (-1)"
    by (simp only: start_merging_thread_def m thread_outcome_def prod.case thread_end.case fst_conv)
  moreover have "length (filter unknown_tag (replicate 100 (Recv odd_message))) \<le> 100"
    by (rule order_trans [OF length_filter_le]) simp
  ultimately show ?thesis by blast
qed

theorem merging_thread_exits_at_hundredth_bad_message_witness:
  "length (filter unknown_tag (replicate 99 (Recv odd_message) @ [Recv stop_message])) < 100 \<and>
   thread_outcome (start_merging_thread demo_env demo_glob
      (replicate 99 (Recv odd_message) @ [Recv stop_message])) = ThreadExit \<and>
   thread_badmessages (start_merging_thread demo_env demo_glob
      (replicate 99 (Recv odd_message) @ [Recv stop_message])) = 99 \<and>
   (\<forall>c. thread_outcome (start_merging_thread demo_env demo_glob
      (replicate 99 (Recv odd_message) @ [Recv stop_message])) \<noteq> ProcessExit c)"
proof -
  let ?input = "replicate 99 (Recv odd_message) @ [Recv stop_message]"
  have h: "length (filter unknown_tag ?input) < 100"
    by (simp add: unknown_tag_def odd_message_def stop_message_def)
  have l: "merging_loop env g ?input ms 0 [] =
        merging_loop env g [Recv stop_message] ms 99 (replicate 99 (LogUnexpectedMessage 7))" for env g ms
    using merging_loop_odd_messages [of 0 99 env g "[Recv stop_message]" ms "[]"] by simp
  have m: "merging_loop env g ?input ms 0 [] =
             (ThreadExit, ms, 99, replicate 99 (LogUnexpectedMessage 7))" for env g ms
    by (subst l) (simp add: stop_message_def)
  have e: "thread_outcome (start_merging_thread demo_env demo_glob ?input) = ThreadExit"
    "thread_badmessages (start_merging_thread demo_env demo_glob ?input) = 99"
    by (simp_all only: start_merging_thread_def m thread_outcome_def thread_badmessages_def
          prod.case thread_end.case fst_conv snd_conv)
  note t = merging_thread_exits_at_hundredth_bad_message [of ?input demo_env demo_glob, THEN conjunct1]
  show ?thesis using h e t by blast
qed

subsection \<open>The list of waiting intervals\<close>

definition pending_inv :: "wdcap_global \<Rightarrow> wdcap_interval list \<Rightarrow> bool" where
  "pending_inv g ws \<longleftrightarrow>
     distinct (map timestamp ws) \<and>
     (\<forall>w\<in>set ws. 0 < threads_done w \<and> threads_done w < threads g)"

text \<open>
  Whatever the threads report, after every call that returns the list holds no two
  entries for one timestamp and every entry counts at least one and fewer than all
  threads.
\<close>

lemma pending_list_invariant:
  assumes "pending_inv g (waiting ms)" and "0 < threads g"
    and "merge_finished_interval env g ms tid ts st = (ms', ret, acts, False)"
  shows "pending_inv g (waiting ms')"
proof -
  let ?P = "\<lambda>w. timestamp w \<noteq> ts"
  let ?before = "takeWhile ?P (waiting ms)" and ?found = "dropWhile ?P (waiting ms)"
  have split: "waiting ms = ?before @ ?found" by simp
  have inv: "distinct (map timestamp (?before @ ?found))"
    "\<forall>w\<in>set (?before @ ?found). 0 < threads_done w \<and> threads_done w < threads g"
    using assms(1) unfolding pending_inv_def by simp_all
  have before_ts: "\<forall>w\<in>set ?before. timestamp w \<noteq> ts"
    by (auto dest: set_takeWhileD)
  show ?thesis
  proof (cases ?found)
    case Nil
    then have all: "\<forall>w\<in>set (waiting ms). timestamp w \<noteq> ts"
      by (simp add: dropWhile_eq_Nil_conv)
    have b: "?before = waiting ms" using Nil split by simp
    show ?thesis
    proof (cases "threads g = 1")
      case True
      then have "waiting ms' = []"
        using assms(3) Nil by (auto simp: merge_finished_interval_def Let_def split: if_splits)
      then show ?thesis by (simp add: pending_inv_def)
    next
      case False
      then have "waiting ms' = waiting ms @
          [\<lparr>timestamp = ts, threads_done = 1, thread_ids = (replicate (threads g) 0)[0 := tid],
            thread_stats = (replicate (threads g) zero_stat)[0 := st]\<rparr>]"
        using assms(3) Nil b by (auto simp: merge_finished_interval_def Let_def split: if_splits)
      then show ?thesis
        using assms(1,2) False all by (auto simp: pending_inv_def)
    qed
  next
    case (Cons w ws)
    have wts: "timestamp w = ts"
      using hd_dropWhile [of ?P "waiting ms"] Cons by auto
    let ?fin = "w\<lparr>thread_ids := (thread_ids w)[threads_done w := tid],
                  thread_stats := (thread_stats w)[threads_done w := st],
                  threads_done := threads_done w + 1\<rparr>"
    have wprops: "0 < threads_done w" "threads_done w < threads g"
      using inv(2) Cons by auto
    show ?thesis
    proof (cases "threads_done w + 1 = threads g")
      case True
      then have "waiting ms' = ws"
        using assms(3) Cons by (auto simp: merge_finished_interval_def Let_def split: if_splits)
      then show ?thesis using inv Cons by (auto simp: pending_inv_def)
    next
      case False
      then have "waiting ms' = ?before @ ?fin # ws"
        using assms(3) Cons by (auto simp: merge_finished_interval_def Let_def split: if_splits)
      moreover have "distinct (map timestamp (?before @ ?fin # ws))"
        using inv(1) Cons by simp
      moreover have "\<forall>x\<in>set (?before @ ?fin # ws). 0 < threads_done x \<and> threads_done x < threads g"
        using inv(2) Cons wprops False by auto
      ultimately show ?thesis by (simp add: pending_inv_def)
    qed
  qed
qed

subsection \<open>An interval that is completed before an older one\<close>









subsection \<open>The hangup handler\<close>

text \<open>
  The two flags that \<open>restart_signal\<close> touches, both \<open>volatile int\<close>. The handler reads the
  seconds of the monotonic clock, a \<open>time_t\<close>, here an integer; the comparison is made on
  the values and the assignment to \<open>corsaro_last_restart\<close> keeps the low 32 bits.
\<close>

record restart_flags =
  corsaro_restart :: "32 word"
  corsaro_last_restart :: "32 word"

definition restart_signal :: "int \<Rightarrow> restart_flags \<Rightarrow> restart_flags" where
  "restart_signal tv_sec fl =
     (if tv_sec > sint (corsaro_last_restart fl)
      then fl\<lparr>corsaro_restart := 1, corsaro_last_restart := word_of_int tv_sec\<rparr>
      else fl)"

text \<open>
  What happens to the flags over time: hangups, each with the clock's seconds at its
  delivery, and the main loop clearing \<open>corsaro_restart\<close> after it has acted on a reload.
\<close>

datatype flag_event = Hangup int | MainClearsRestart

fun flag_step :: "restart_flags \<Rightarrow> flag_event \<Rightarrow> restart_flags" where
  "flag_step fl (Hangup tv_sec) = restart_signal tv_sec fl"
| "flag_step fl MainClearsRestart = fl\<lparr>corsaro_restart := 0\<rparr>"

text \<open>The seconds of the hangups that the handler accepted, in their order.\<close>

fun accepted_reloads :: "restart_flags \<Rightarrow> flag_event list \<Rightarrow> int list" where
  "accepted_reloads fl [] = []"
| "accepted_reloads fl (Hangup tv_sec # es) =
     (if tv_sec > sint (corsaro_last_restart fl)
      then tv_sec # accepted_reloads (restart_signal tv_sec fl) es
      else accepted_reloads (restart_signal tv_sec fl) es)"
| "accepted_reloads fl (MainClearsRestart # es) = accepted_reloads (flag_step fl MainClearsRestart) es"

definition fits_int :: "flag_event \<Rightarrow> bool" where
  "fits_int e = (case e of Hangup t \<Rightarrow> - (2 ^ 31) \<le> t \<and> t < 2 ^ 31 | MainClearsRestart \<Rightarrow> True)"

lemma sint_word_of_int_32:
  "- (2 ^ 31) \<le> t \<Longrightarrow> t < 2 ^ 31 \<Longrightarrow> sint (word_of_int t :: 32 word) = t"
  by (simp add: sint_sbintrunc' signed_take_bit_int_eq_self)

lemma accepted_reloads_increasing:
  assumes "\<forall>e\<in>set es. fits_int e"
  shows "sorted_wrt (<) (accepted_reloads fl es) \<and>
         (\<forall>t\<in>set (accepted_reloads fl es). sint (corsaro_last_restart fl) < t)"
  using assms
proof (induction es arbitrary: fl)
  case Nil
  then show ?case by simp
next
  case (Cons e es)
  show ?case
  proof (cases e)
    case MainClearsRestart
    then show ?thesis using Cons.IH [of "fl\<lparr>corsaro_restart := 0\<rparr>"] Cons.prems by simp
  next
    case (Hangup t)
    then have rng: "- (2 ^ 31) \<le> t" "t < 2 ^ 31" using Cons.prems by (simp_all add: fits_int_def)
    have rest: "\<forall>e\<in>set es. fits_int e" using Cons.prems by simp
    note IH = Cons.IH [OF rest, of "restart_signal t fl"]
    show ?thesis
    proof (cases "t > sint (corsaro_last_restart fl)")
      case True
      then have "sint (corsaro_last_restart (restart_signal t fl)) = t"
        using rng by (simp add: restart_signal_def sint_word_of_int_32)
      then show ?thesis using IH True Hangup by auto
    next
      case False
      then have "restart_signal t fl = fl" by (simp add: restart_signal_def)
      then show ?thesis using IH False Hangup by simp
    qed
  qed
qed

text \<open>
  Claim C9. A hangup whose clock second is not greater than the stored second of the last
  accepted reload leaves both flags as they are; a hangup in a later second sets
  \<open>corsaro_restart\<close> and stores its second. For clock readings that fit a 32-bit \<open>int\<close>
  the stored second is the second of the accepted hangup itself, and in any sequence of
  hangups, with the main loop clearing the reload flag in between, the seconds of the
  accepted hangups are strictly increasing: no second has two accepted reloads.
\<close>

theorem restart_signal_rate_limit:
  "(tv_sec \<le> sint (corsaro_last_restart fl) \<longrightarrow> restart_signal tv_sec fl = fl) \<and>
   (tv_sec > sint (corsaro_last_restart fl) \<longrightarrow>
      corsaro_restart (restart_signal tv_sec fl) = 1 \<and>
      corsaro_last_restart (restart_signal tv_sec fl) = word_of_int tv_sec) \<and>
   (tv_sec > sint (corsaro_last_restart fl) \<and> - (2 ^ 31) \<le> tv_sec \<and> tv_sec < 2 ^ 31 \<longrightarrow>
      sint (corsaro_last_restart (restart_signal tv_sec fl)) = tv_sec \<and>
      restart_signal tv_sec (restart_signal tv_sec fl) = restart_signal tv_sec fl) \<and>
   ((\<forall>e\<in>set es. fits_int e) \<longrightarrow>
      sorted_wrt (<) (accepted_reloads fl es) \<and> distinct (accepted_reloads fl es))"
proof -
  have a: "tv_sec \<le> sint (corsaro_last_restart fl) \<longrightarrow> restart_signal tv_sec fl = fl"
    by (simp add: restart_signal_def)
  have b: "tv_sec > sint (corsaro_last_restart fl) \<longrightarrow>
      corsaro_restart (restart_signal tv_sec fl) = 1 \<and>
      corsaro_last_restart (restart_signal tv_sec fl) = word_of_int tv_sec"
    by (simp add: restart_signal_def)
  have c: "tv_sec > sint (corsaro_last_restart fl) \<and> - (2 ^ 31) \<le> tv_sec \<and> tv_sec < 2 ^ 31 \<longrightarrow>
      sint (corsaro_last_restart (restart_signal tv_sec fl)) = tv_sec \<and>
      restart_signal tv_sec (restart_signal tv_sec fl) = restart_signal tv_sec fl"
    by (simp add: restart_signal_def sint_word_of_int_32)
  have d: "(\<forall>e\<in>set es. fits_int e) \<longrightarrow>
      sorted_wrt (<) (accepted_reloads fl es) \<and> distinct (accepted_reloads fl es)"
    using accepted_reloads_increasing [of es fl] strict_sorted_iff by blast
  show ?thesis using a b c d by blast
qed

theorem restart_signal_rate_limit_witness:
  "list_all fits_int [Hangup 5, Hangup 5, MainClearsRestart, Hangup 5, Hangup 6, Hangup 4] \<and>
   accepted_reloads \<lparr>corsaro_restart = 0, corsaro_last_restart = 0\<rparr>
      [Hangup 5, Hangup 5, MainClearsRestart, Hangup 5, Hangup 6, Hangup 4] = [5, 6] \<and>
   distinct (accepted_reloads \<lparr>corsaro_restart = 0, corsaro_last_restart = 0\<rparr>
      [Hangup 5, Hangup 5, MainClearsRestart, Hangup 5, Hangup 6, Hangup 4]) \<and>
   restart_signal 5 \<lparr>corsaro_restart = 0, corsaro_last_restart = 5\<rparr>
      = \<lparr>corsaro_restart = 0, corsaro_last_restart = 5\<rparr> \<and>
   restart_signal 6 \<lparr>corsaro_restart = 0, corsaro_last_restart = 5\<rparr>
      = \<lparr>corsaro_restart = 1, corsaro_last_restart = 6\<rparr>"
proof -
  let ?es = "[Hangup 5, Hangup 5, MainClearsRestart, Hangup 5, Hangup 6, Hangup 4]"
  let ?fl = "\<lparr>corsaro_restart = 0, corsaro_last_restart = 0\<rparr>"
  have h: "\<forall>e\<in>set ?es. fits_int e" by (simp add: fits_int_def)
  have e: "accepted_reloads ?fl ?es = [5, 6]" by (simp add: restart_signal_def)
  have s: "restart_signal 5 \<lparr>corsaro_restart = 0, corsaro_last_restart = 5\<rparr>
      = \<lparr>corsaro_restart = 0, corsaro_last_restart = 5\<rparr>"
    "restart_signal 6 \<lparr>corsaro_restart = 0, corsaro_last_restart = 5\<rparr>
      = \<lparr>corsaro_restart = 1, corsaro_last_restart = 6\<rparr>"
    by (simp_all add: restart_signal_def)
  have "distinct (accepted_reloads ?fl ?es)"
    using h restart_signal_rate_limit [of 5 ?fl ?es] by blast
  moreover have "list_all fits_int ?es" by (simp add: fits_int_def)
  ultimately show ?thesis using e s by blast
qed

subsection \<open>Start-up\<close>

datatype log_mode =
    GLOBAL_LOGMODE_STDERR
  | GLOBAL_LOGMODE_FILE
  | GLOBAL_LOGMODE_SYSLOG
  | GLOBAL_LOGMODE_DISABLED

text \<open>
  What the process prints and does while it starts: a line on standard error, the usage
  text (printed with \<open>printf\<close>, on standard output), the installation of the signal
  handlers, and the fork of the capture process, in which the threads are created.
\<close>

datatype startup_event =
    ToStderr string
  | Usage
  | InstallSignalHandlers
  | ForkCapture

text \<open>
  The options as \<open>getopt_long\<close> returns them one after the other: the option character
  (\<open>?\<close> for an option it does not know) and \<open>optarg\<close>. The loop of \<open>init_wdcap_process\<close>
  keeps the last \<open>-l\<close> and \<open>-c\<close> and returns at \<open>-h\<close> or at any other character.
\<close>

fun parse_options ::
  "(char \<times> string) list \<Rightarrow> string option \<Rightarrow> string option \<Rightarrow>
   startup_event list + (string option \<times> string option)"
where
  "parse_options [] logmodestr configfile = Inr (logmodestr, configfile)"
| "parse_options ((c, optarg) # rest) logmodestr configfile =
     (if c = CHR ''l'' then parse_options rest (Some optarg) configfile
      else if c = CHR ''c'' then parse_options rest logmodestr (Some optarg)
      else if c = CHR ''h'' then Inl [Usage]
      else Inl [ToStderr (''corsarowdcap: unsupported option: '' @ [c]), Usage])"

definition parse_logmode :: "string \<Rightarrow> log_mode option" where
  "parse_logmode logmodestr =
     (if logmodestr = ''stderr'' \<or> logmodestr = ''terminal'' then Some GLOBAL_LOGMODE_STDERR
      else if logmodestr = ''file'' then Some GLOBAL_LOGMODE_FILE
      else if logmodestr = ''syslog'' then Some GLOBAL_LOGMODE_SYSLOG
      else if logmodestr = ''disabled'' \<or> logmodestr = ''off'' \<or> logmodestr = ''none''
        then Some GLOBAL_LOGMODE_DISABLED
      else None)"

text \<open>
  \<open>init_wdcap_process\<close>: the returned number, the global state, and the events. The reader
  of the configuration file, \<open>corsaro_wdcap_init_global\<close>, is a parameter: it gives the
  global state or nothing.
\<close>

definition load_configuration ::
  "(string \<Rightarrow> log_mode \<Rightarrow> wdcap_global option) \<Rightarrow> string \<Rightarrow> log_mode \<Rightarrow>
   int \<times> wdcap_global option \<times> startup_event list"
where
  "load_configuration corsaro_wdcap_init_global configfile logmode =
     (case corsaro_wdcap_init_global configfile logmode of
        None \<Rightarrow> (1, None, [InstallSignalHandlers])
      | Some glob \<Rightarrow> (0, Some glob, [InstallSignalHandlers]))"

definition init_wdcap_process ::
  "(string \<Rightarrow> log_mode \<Rightarrow> wdcap_global option) \<Rightarrow> (char \<times> string) list \<Rightarrow>
   int \<times> wdcap_global option \<times> startup_event list"
where
  "init_wdcap_process corsaro_wdcap_init_global opts =
     (case parse_options opts None None of
        Inl events \<Rightarrow> (1, None, events)
      | Inr (logmodestr, configfile) \<Rightarrow>
          (case configfile of
             None \<Rightarrow>
               (1, None,
                [ToStderr ''corsarowdcap: no config file specified. Use -c to specify one.'', Usage])
           | Some file \<Rightarrow>
               (case logmodestr of
                  None \<Rightarrow> load_configuration corsaro_wdcap_init_global file GLOBAL_LOGMODE_STDERR
                | Some s \<Rightarrow>
                    (case parse_logmode s of
                       None \<Rightarrow> (1, None, [ToStderr (''corsarowdcap: unexpected logmode: '' @ s), Usage])
                     | Some logmode \<Rightarrow>
                         load_configuration corsaro_wdcap_init_global file logmode))))"

text \<open>
  \<open>main\<close> up to the first fork. When \<open>init_wdcap_process\<close> fails, \<open>runerr\<close> is set and
  control goes to \<open>endwdcap\<close>, where no signal is sent because of \<open>runerr\<close> and the
  function ends with \<open>return 0\<close>. After the fork the parent watches its child; that
  part is not followed here.
\<close>

datatype main_end = Returned int | Supervising

definition main_start ::
  "bool \<Rightarrow> (string \<Rightarrow> log_mode \<Rightarrow> wdcap_global option) \<Rightarrow> (char \<times> string) list \<Rightarrow>
   main_end \<times> startup_event list"
where
  "main_start setenv_ok corsaro_wdcap_init_global opts =
     (if \<not> setenv_ok
      then (Returned (-1), [ToStderr ''corsarowdcap: unable to set libwandio environment''])
      else
        (case init_wdcap_process corsaro_wdcap_init_global opts of
           (ret, glob, events) \<Rightarrow>
             if ret \<noteq> 0 then (Returned 0, events)
             else (Supervising, events @ [ForkCapture])))"

text \<open>
  Claim C7 at three command lines: an option that is not supported, no \<open>-c\<close>, and a log
  mode that does not exist. Each time the error is written to standard error and no
  capture process is forked, so no thread is created; but \<open>main\<close> returns 0, where the
  claim asks for a status other than 0.
\<close>

theorem configuration_error_returns_zero:
  "main_start True init_global [(CHR ''x'', [])] =
     (Returned 0, [ToStderr ''corsarowdcap: unsupported option: x'', Usage]) \<and>
   main_start True init_global [(CHR ''l'', ''file'')] =
     (Returned 0, [ToStderr ''corsarowdcap: no config file specified. Use -c to specify one.'', Usage]) \<and>
   main_start True init_global [(CHR ''c'', ''wdcap.yaml''), (CHR ''l'', ''loud'')] =
     (Returned 0, [ToStderr ''corsarowdcap: unexpected logmode: loud'', Usage])"
  by (simp add: main_start_def init_wdcap_process_def parse_logmode_def)

lemma configuration_error_never_forks:
  "fst (init_wdcap_process init_global opts) \<noteq> 0 \<Longrightarrow>
   fst (main_start True init_global opts) = Returned 0 \<and>
   ForkCapture \<notin> set (snd (main_start True init_global opts))"
proof -
  have nf: "ForkCapture \<notin> set (snd (snd (init_wdcap_process init_global opts)))"
  proof (cases "parse_options opts None None")
    case (Inl events)
    have "ForkCapture \<notin> set events" if "parse_options os l c = Inl events" for os l c
      using that by (induction os l c rule: parse_options.induct) (auto split: if_splits)
    then show ?thesis using Inl by (simp add: init_wdcap_process_def)
  next
    case (Inr p)
    then show ?thesis
      by (auto simp: init_wdcap_process_def load_configuration_def split: prod.splits option.splits)
  qed
  assume "fst (init_wdcap_process init_global opts) \<noteq> 0"
  then show ?thesis using nf by (auto simp: main_start_def split: prod.splits)
qed

subsection \<open>The per-packet callback of a processing thread\<close>

text \<open>
  The local state of a processing thread. The interval timestamps and \<open>next_report\<close> are
  unsigned 32-bit numbers. \<open>writer\<close> is the fast trace writer: none, or the descriptor of
  the file it writes (\<open>-1\<close> when it has no file).
\<close>

record wdcap_local =
  ending :: bool
  current_interval_time :: "32 word"
  current_interval_number :: "32 word"
  next_report :: "32 word"
  interimfilename :: "string option"
  writer :: "int option"
  last_ts :: "32 word"

text \<open>The flags that the threads share: \<open>corsaro_halted\<close> and \<open>glob->threads_ended\<close>.\<close>

record shared_flags =
  corsaro_halted :: bool
  threads_ended :: nat

text \<open>
  What one call of \<open>per_packet\<close> finds around it: the seconds of the first packet that
  \<open>trace_get_first_packet\<close> reports (none when it fails), whether \<open>corsaro_restart\<close> is
  set during the call, the statistics of the thread, whether \<open>zmq_send\<close> of a message
  succeeds, the name rendered for the interim file of an interval, the descriptor that
  starting the writer on a name gives (\<open>-1\<close>: failure), and whether the packet can be
  written.
\<close>

record packet_env =
  first_packet :: "int option"
  restart_requested :: bool
  thread_statistics :: libtrace_stat
  zmq_send :: "wdcap_message \<Rightarrow> bool"
  interim_name :: "32 word \<Rightarrow> string option"
  start_writer :: "string \<Rightarrow> int"
  fast_write :: bool

definition init_wdcap_thread_data :: "int option \<Rightarrow> wdcap_local" where
  "init_wdcap_thread_data w =
     \<lparr>ending = False, current_interval_time = 0, current_interval_number = 0, next_report = 0,
      interimfilename = None, writer = w, last_ts = 0\<rparr>"

text \<open>
  The first lines of \<open>per_packet\<close>: with no interval yet, the thread takes the seconds
  \<open>firsttv->tv_sec\<close> of the first packet, a \<open>time_t\<close>, as the time of its current interval
  and the next multiple of the interval length as \<open>next_report\<close>. The arithmetic is done
  on the \<open>time_t\<close> values (\<open>%\<close> truncates) and the results are stored in 32 bits. Nothing
  is returned when the callback gives up and halts the program.
\<close>

definition start_first_interval :: "packet_env \<Rightarrow> wdcap_global \<Rightarrow> wdcap_local \<Rightarrow> wdcap_local option" where
  "start_first_interval env g tls =
     (if current_interval_time tls = 0 then
        (case first_packet env of
           None \<Rightarrow> None
         | Some firsttv \<Rightarrow>
             if interval g = 0 then None
             else Some (tls\<lparr>current_interval_time := word_of_int firsttv,
                            next_report := word_of_int
                              (firsttv - (firsttv smod uint (interval g)) + uint (interval g))\<rparr>))
      else Some tls)"

text \<open>
  The \<open>while\<close> loop of \<open>per_packet\<close> for a packet with seconds \<open>ptv\<close>, with the messages sent
  so far. Each round reports the current interval to the merging thread, hands over the
  descriptor of the interim file and moves to the next interval. The result says first
  whether the callback returns from inside the loop (failed send, or reload). The loop
  need not end when the 32-bit \<open>next_report\<close> wraps around, so it is given a number of
  rounds it may take, and no result when they are used up. The fast trace writer is the
  trace library's; as the spec has it, resetting it yields the descriptor of its file and
  leaves it without a file. Without statistics the message carries whatever the stack
  held, taken to be zero here.
\<close>

fun interval_rollover ::
  "nat \<Rightarrow> packet_env \<Rightarrow> wdcap_global \<Rightarrow> 8 word \<Rightarrow> int \<Rightarrow> wdcap_local \<Rightarrow> shared_flags \<Rightarrow>
   wdcap_message list \<Rightarrow> (bool \<times> wdcap_local \<times> shared_flags \<times> wdcap_message list) option"
where
  "interval_rollover fuel env g tid ptv tls sh sent =
     (if \<not> (restart_requested env \<or> (next_report tls \<noteq> 0 \<and> ptv \<ge> uint (next_report tls)))
      then Some (False, tls, sh, sent)
      else if fuel = 0 then None
      else
        let mergemsg =
              \<lparr>mtype = CORSARO_WDCAP_MSG_INTERVAL_DONE, threadid = tid,
               msg_timestamp = current_interval_time tls,
               src_fd = (case writer tls of None \<Rightarrow> -1 | Some fd \<Rightarrow> fd),
               lt_stats = (if writestats g then thread_statistics env else zero_stat)\<rparr>;
            tls1 = (case writer tls of
                      None \<Rightarrow> tls
                    | Some fd \<Rightarrow> tls\<lparr>writer := Some (-1), interimfilename := None\<rparr>)
        in if \<not> zmq_send env mergemsg
           then Some (True, tls1, sh\<lparr>corsaro_halted := True\<rparr>, sent)
           else
             let tls2 = tls1\<lparr>current_interval_number := current_interval_number tls1 + 1,
                             current_interval_time := next_report tls1,
                             next_report := next_report tls1 + interval g\<rparr>
             in if restart_requested env
                then Some (True, tls2\<lparr>ending := True\<rparr>,
                           sh\<lparr>threads_ended := threads_ended sh + 1,
                              corsaro_halted :=
                                (corsaro_halted sh \<or> threads_ended sh + 1 \<ge> threads g)\<rparr>,
                           sent @ [mergemsg])
                else interval_rollover (fuel - 1) env g tid ptv tls2 sh (sent @ [mergemsg]))"

declare interval_rollover.simps [simp del]

text \<open>
  Opening a new interim file when the thread has none; \<open>False\<close> when the name cannot be
  rendered or the writer cannot be started on it. The call passes \<open>tls->writer\<close> and
  assigns only \<open>ret\<close>: a writer that exists then holds the new descriptor, and a thread
  without a writer stays without one.
\<close>

definition open_interim :: "packet_env \<Rightarrow> wdcap_local \<Rightarrow> wdcap_local \<times> bool" where
  "open_interim env tls =
     (case interimfilename tls of
        Some name \<Rightarrow> (tls, True)
      | None \<Rightarrow>
          (case interim_name env (current_interval_time tls) of
             None \<Rightarrow> (tls, False)
           | Some name \<Rightarrow>
               if start_writer env name = -1 then (tls\<lparr>interimfilename := Some name\<rparr>, False)
               else (tls\<lparr>interimfilename := Some name,
                          writer := (case writer tls of
                                       None \<Rightarrow> None
                                     | Some fd \<Rightarrow> Some (start_writer env name))\<rparr>, True)))"

text \<open>
  \<open>per_packet\<close>: the new local state and flags, the messages sent to the merging thread
  and whether the packet was written to the interim file.
\<close>

definition per_packet ::
  "nat \<Rightarrow> packet_env \<Rightarrow> wdcap_global \<Rightarrow> 8 word \<Rightarrow> int \<Rightarrow> wdcap_local \<times> shared_flags \<Rightarrow>
   (wdcap_local \<times> shared_flags \<times> wdcap_message list \<times> bool) option"
where
  "per_packet fuel env g tid ptv st =
     (case st of (tls, sh) \<Rightarrow>
        if ending tls then Some (tls, sh, [], False)
        else
          (case start_first_interval env g tls of
             None \<Rightarrow> Some (tls, sh\<lparr>corsaro_halted := True\<rparr>, [], False)
           | Some tls0 \<Rightarrow>
               (case interval_rollover fuel env g tid ptv tls0 sh [] of
                  None \<Rightarrow> None
                | Some (returned, tls1, sh1, sent) \<Rightarrow>
                    if returned then Some (tls1, sh1, sent, False)
                    else
                      (case open_interim env tls1 of
                         (tls2, False) \<Rightarrow> Some (tls2, sh1\<lparr>corsaro_halted := True\<rparr>, sent, False)
                       | (tls2, True) \<Rightarrow>
                           if fast_write env
                           then Some (tls2\<lparr>last_ts := word_of_int ptv\<rparr>, sh1, sent, True)
                           else Some (tls2\<lparr>last_ts := word_of_int ptv\<rparr>,
                                      sh1\<lparr>corsaro_halted := True\<rparr>, sent, False)))))"

text \<open>A thread receiving packets one after the other, each with its surroundings.\<close>

fun run_packets ::
  "nat \<Rightarrow> wdcap_global \<Rightarrow> 8 word \<Rightarrow> (packet_env \<times> int) list \<Rightarrow> wdcap_local \<times> shared_flags \<Rightarrow>
   wdcap_message list \<Rightarrow> (wdcap_local \<times> shared_flags \<times> wdcap_message list) option"
where
  "run_packets fuel g tid [] st sent = Some (fst st, snd st, sent)"
| "run_packets fuel g tid ((env, ptv) # rest) st sent =
     (case per_packet fuel env g tid ptv st of
        None \<Rightarrow> None
      | Some (tls, sh, msgs, written) \<Rightarrow> run_packets fuel g tid rest (tls, sh) (sent @ msgs))"

subsection \<open>The interval timestamps that a thread reports\<close>

text \<open>
  The timestamps of the messages sent so far: the first is the time of the first packet,
  the later ones are multiples of the interval length.
\<close>

definition reported_ok :: "int \<Rightarrow> wdcap_global \<Rightarrow> wdcap_message list \<Rightarrow> bool" where
  "reported_ok firsttv g sent =
     (case sent of
        [] \<Rightarrow> True
      | m # ms \<Rightarrow> uint (msg_timestamp m) = firsttv \<and>
                 list_all (\<lambda>m. uint (interval g) dvd uint (msg_timestamp m)) ms)"

definition started :: "int \<Rightarrow> wdcap_global \<Rightarrow> wdcap_local \<Rightarrow> wdcap_message list \<Rightarrow> bool" where
  "started firsttv g tls sent \<longleftrightarrow>
     uint (interval g) dvd uint (next_report tls) \<and> 0 < uint (next_report tls) \<and>
     current_interval_time tls \<noteq> 0 \<and>
     (if sent = [] then uint (current_interval_time tls) = firsttv
      else uint (interval g) dvd uint (current_interval_time tls))"

definition worker_inv :: "int \<Rightarrow> wdcap_global \<Rightarrow> wdcap_local \<Rightarrow> wdcap_message list \<Rightarrow> bool" where
  "worker_inv firsttv g tls sent \<longleftrightarrow>
     reported_ok firsttv g sent \<and>
     (ending tls \<or> (current_interval_time tls = 0 \<and> sent = []) \<or> started firsttv g tls sent)"

lemma reported_ok_snoc:
  "reported_ok firsttv g (sent @ [m]) \<longleftrightarrow>
     reported_ok firsttv g sent \<and>
     (if sent = [] then uint (msg_timestamp m) = firsttv
      else uint (interval g) dvd uint (msg_timestamp m))"
  by (cases sent) (auto simp: reported_ok_def)

lemma uint_word_of_int_32:
  "0 \<le> k \<Longrightarrow> k < 2 ^ 32 \<Longrightarrow> uint (word_of_int k :: 32 word) = k"
  by (simp add: uint_word_of_int take_bit_int_eq_self)

lemma smod_nonneg: "0 \<le> (a::int) \<Longrightarrow> 0 < b \<Longrightarrow> a smod b = a mod b"
  by (cases "a = 0") (simp_all add: smod_int_alt_def)

lemma uint_interval_pos: "interval g \<noteq> 0 \<Longrightarrow> 0 < uint (interval g)"
proof -
  assume "interval g \<noteq> 0"
  then have "uint (interval g) \<noteq> 0" by (simp add: uint_0_iff)
  moreover have "0 \<le> uint (interval g)" by simp
  ultimately show ?thesis by linarith
qed

lemma start_first_interval_fresh:
  assumes "interval g \<noteq> 0" and "0 < firsttv" and "firsttv + uint (interval g) < 2 ^ 32"
    and "first_packet env = Some firsttv" and "current_interval_time tls = 0"
  shows "\<exists>tls'. start_first_interval env g tls = Some tls' \<and>
           uint (current_interval_time tls') = firsttv \<and>
           uint (next_report tls') =
             firsttv - firsttv mod uint (interval g) + uint (interval g) \<and>
           uint (interval g) dvd uint (next_report tls') \<and> 0 < uint (next_report tls') \<and>
           current_interval_time tls' \<noteq> 0 \<and> ending tls' = ending tls"
proof -
  let ?I = "uint (interval g)"
  have I: "0 < ?I" using assms(1) by (rule uint_interval_pos)
  let ?v = "firsttv - firsttv mod ?I + ?I"
  have m: "0 \<le> firsttv mod ?I" "firsttv mod ?I < ?I" "firsttv mod ?I \<le> firsttv"
    using I assms(2) by (simp_all add: zmod_le_nonneg_dividend)
  have v: "0 < ?v" "?v < 2 ^ 32" using m I assms(3) by linarith+
  have dv: "?I dvd ?v" by (simp add: minus_mod_eq_mult_div)
  have f: "0 \<le> firsttv" "firsttv < 2 ^ 32" using assms(2,3) I by linarith+
  have sm: "firsttv smod ?I = firsttv mod ?I" using f(1) I by (rule smod_nonneg)
  have t: "uint (word_of_int firsttv :: 32 word) = firsttv" using f by (rule uint_word_of_int_32)
  have n: "uint (word_of_int ?v :: 32 word) = ?v" using v by (intro uint_word_of_int_32) simp_all
  have nz: "(word_of_int firsttv :: 32 word) \<noteq> 0"
  proof
    assume "(word_of_int firsttv :: 32 word) = 0"
    then have "uint (word_of_int firsttv :: 32 word) = 0" by simp
    then show False using t assms(2) by simp
  qed
  show ?thesis
    using assms(1,4,5) t n dv v(1) nz by (simp add: start_first_interval_def sm)
qed

lemma interval_rollover_inv:
  assumes "interval g \<noteq> 0" and "0 \<le> ptv" and "ptv + uint (interval g) < 2 ^ 32"
    and "started firsttv g tls (hist @ sent)" and "reported_ok firsttv g (hist @ sent)"
  shows "(\<forall>ret tls' sh' sent'.
            interval_rollover fuel env g tid ptv tls sh sent = Some (ret, tls', sh', sent') \<longrightarrow>
            reported_ok firsttv g (hist @ sent') \<and>
            (ending tls' \<or> started firsttv g tls' (hist @ sent')) \<and>
            (\<not> ret \<longrightarrow> ending tls' = ending tls)) \<and>
         (nat (ptv + 1 - uint (next_report tls)) < fuel \<longrightarrow>
            interval_rollover fuel env g tid ptv tls sh sent \<noteq> None)"
  using assms(4,5)
proof (induction fuel arbitrary: tls sent)
  case 0
  then show ?case
    by (subst interval_rollover.simps, subst interval_rollover.simps) auto
next
  case (Suc fuel)
  let ?I = "uint (interval g)"
  have I: "0 < ?I" using assms(1) by (rule uint_interval_pos)
  let ?loop = "restart_requested env \<or> (next_report tls \<noteq> 0 \<and> ptv \<ge> uint (next_report tls))"
  show ?case
  proof (cases ?loop)
    case False
    then have "interval_rollover (Suc fuel) env g tid ptv tls sh sent = Some (False, tls, sh, sent)"
      by (subst interval_rollover.simps) simp
    then show ?thesis using Suc.prems by simp
  next
    case True
    let ?msg = "\<lparr>mtype = CORSARO_WDCAP_MSG_INTERVAL_DONE, threadid = tid,
               msg_timestamp = current_interval_time tls,
               src_fd = (case writer tls of None \<Rightarrow> -1 | Some fd \<Rightarrow> fd),
               lt_stats = (if writestats g then thread_statistics env else zero_stat)\<rparr>"
    let ?tls1 = "case writer tls of None \<Rightarrow> tls
                 | Some fd \<Rightarrow> tls\<lparr>writer := Some (-1), interimfilename := None\<rparr>"
    let ?tls2 = "?tls1\<lparr>current_interval_number := current_interval_number ?tls1 + 1,
                       current_interval_time := next_report ?tls1,
                       next_report := next_report ?tls1 + interval g\<rparr>"
    have t1: "current_interval_time ?tls1 = current_interval_time tls"
      "next_report ?tls1 = next_report tls" "ending ?tls1 = ending tls"
      by (simp_all split: option.splits)
    have st1: "started firsttv g ?tls1 (hist @ sent)"
      using Suc.prems(1) by (simp add: started_def t1)
    have "reported_ok firsttv g ((hist @ sent) @ [?msg])"
      unfolding reported_ok_snoc using Suc.prems by (simp add: started_def)
    then have rok: "reported_ok firsttv g (hist @ sent @ [?msg])" by simp
    show ?thesis
    proof (cases "zmq_send env ?msg")
      case nosend: False
      then have "interval_rollover (Suc fuel) env g tid ptv tls sh sent =
                   Some (True, ?tls1, sh\<lparr>corsaro_halted := True\<rparr>, sent)"
        using True by (subst interval_rollover.simps) (simp add: Let_def)
      then show ?thesis using Suc.prems st1 by simp
    next
      case send: True
      show ?thesis
      proof (cases "restart_requested env")
        case r: True
        then have "interval_rollover (Suc fuel) env g tid ptv tls sh sent =
            Some (True, ?tls2\<lparr>ending := True\<rparr>,
                  sh\<lparr>threads_ended := threads_ended sh + 1,
                     corsaro_halted := (corsaro_halted sh \<or> threads_ended sh + 1 \<ge> threads g)\<rparr>,
                  sent @ [?msg])"
          using send by (subst interval_rollover.simps) (simp add: Let_def)
        then show ?thesis using rok by simp
      next
        case nr: False
        then have le: "uint (next_report tls) \<le> ptv" using True by simp
        have rec: "interval_rollover (Suc fuel) env g tid ptv tls sh sent =
                   interval_rollover fuel env g tid ptv ?tls2 sh (sent @ [?msg])"
          using True send nr by (subst interval_rollover.simps) (simp add: Let_def)
        have nrp: "0 < uint (next_report tls)" "?I dvd uint (next_report tls)"
          using Suc.prems(1) by (simp_all add: started_def)
        have sum: "uint (next_report tls + interval g) = uint (next_report tls) + ?I"
          using le assms(3) by (simp add: uint_add_lem [THEN iffD1])
        have nz: "next_report tls \<noteq> 0" using nrp(1) by auto
        have st2: "started firsttv g ?tls2 (hist @ sent @ [?msg])"
          using nrp I sum nz by (simp add: started_def t1)
        have ih: "(\<forall>ret tls' sh' sent'.
            interval_rollover fuel env g tid ptv ?tls2 sh (sent @ [?msg]) = Some (ret, tls', sh', sent') \<longrightarrow>
            reported_ok firsttv g (hist @ sent') \<and>
            (ending tls' \<or> started firsttv g tls' (hist @ sent')) \<and>
            (\<not> ret \<longrightarrow> ending tls' = ending ?tls2)) \<and>
         (nat (ptv + 1 - uint (next_report ?tls2)) < fuel \<longrightarrow>
            interval_rollover fuel env g tid ptv ?tls2 sh (sent @ [?msg]) \<noteq> None)"
          using st2 rok by (intro Suc.IH) simp_all
        have e2: "ending ?tls2 = ending tls" by (simp add: t1)
        have n2: "uint (next_report ?tls2) = uint (next_report tls) + ?I"
          using sum by (simp add: t1)
        have fl: "nat (ptv + 1 - uint (next_report tls)) < Suc fuel \<longrightarrow>
              nat (ptv + 1 - uint (next_report ?tls2)) < fuel"
          using le I n2 by linarith
        show ?thesis unfolding rec using ih fl e2 by blast
      qed
    qed
  qed
qed

lemma started_fields:
  "next_report tls' = next_report tls \<Longrightarrow> current_interval_time tls' = current_interval_time tls \<Longrightarrow>
   started firsttv g tls' sent = started firsttv g tls sent"
  by (simp add: started_def)

lemma open_interim_fields:
  "open_interim env tls = (tls', ok) \<Longrightarrow>
   next_report tls' = next_report tls \<and> current_interval_time tls' = current_interval_time tls \<and>
   ending tls' = ending tls"
  by (auto simp: open_interim_def split: option.splits if_splits)

lemma per_packet_inv:
  assumes "interval g \<noteq> 0" and "0 < firsttv" and "firsttv + uint (interval g) < 2 ^ 32"
    and "first_packet env = Some firsttv" and "0 \<le> ptv" and "ptv + uint (interval g) < 2 ^ 32"
    and "worker_inv firsttv g tls hist"
  shows "(\<forall>tls' sh' msgs w. per_packet fuel env g tid ptv (tls, sh) = Some (tls', sh', msgs, w) \<longrightarrow>
            worker_inv firsttv g tls' (hist @ msgs)) \<and>
         (nat ptv < fuel \<longrightarrow> per_packet fuel env g tid ptv (tls, sh) \<noteq> None)"
proof (cases "ending tls")
  case True
  then show ?thesis using assms(7) by (simp add: per_packet_def)
next
  case False
  have rok: "reported_ok firsttv g hist" using assms(7) by (simp add: worker_inv_def)
  obtain tls0 where s0: "start_first_interval env g tls = Some tls0"
    and st0: "started firsttv g tls0 hist" and e0: "\<not> ending tls0"
  proof (cases "current_interval_time tls = 0")
    case True
    then have h: "hist = []" using assms(7) False by (auto simp: worker_inv_def started_def)
    from start_first_interval_fresh [OF assms(1-4) True] obtain tls0
      where "start_first_interval env g tls = Some tls0"
        "uint (current_interval_time tls0) = firsttv"
        "uint (interval g) dvd uint (next_report tls0)" "0 < uint (next_report tls0)"
        "current_interval_time tls0 \<noteq> 0" "ending tls0 = ending tls"
      by blast
    then show ?thesis using that False h by (simp add: started_def)
  next
    case nz: False
    then have "start_first_interval env g tls = Some tls" by (simp add: start_first_interval_def)
    moreover have "started firsttv g tls hist" using assms(7) False nz by (auto simp: worker_inv_def)
    ultimately show ?thesis using that False by simp
  qed
  have st0': "started firsttv g tls0 (hist @ [])" and rok': "reported_ok firsttv g (hist @ [])"
    using st0 rok by simp_all
  note loop0 = interval_rollover_inv [OF assms(1,5,6) st0' rok', of fuel env tid sh]
  have loop_res: "reported_ok firsttv g (hist @ sent') \<and>
            (ending tls' \<or> started firsttv g tls' (hist @ sent'))"
    if "interval_rollover fuel env g tid ptv tls0 sh [] = Some (ret, tls', sh', sent')"
    for ret tls' sh' sent'
    using loop0 that by blast
  have loop_ends: "nat (ptv + 1 - uint (next_report tls0)) < fuel \<longrightarrow>
            interval_rollover fuel env g tid ptv tls0 sh [] \<noteq> None"
    using loop0 by blast
  have pos: "0 < uint (next_report tls0)" using st0 by (simp add: started_def)
  show ?thesis
  proof (cases "interval_rollover fuel env g tid ptv tls0 sh []")
    case None
    then have "\<not> nat (ptv + 1 - uint (next_report tls0)) < fuel"
      using loop_ends by blast
    moreover have "nat (ptv + 1 - uint (next_report tls0)) \<le> nat ptv"
      using pos assms(5) by linarith
    ultimately have "\<not> nat ptv < fuel" by linarith
    then show ?thesis using None False s0 by (simp add: per_packet_def)
  next
    case (Some r)
    obtain ret tls1 sh1 sent where r: "r = (ret, tls1, sh1, sent)" by (cases r)
    have l1: "reported_ok firsttv g (hist @ sent)"
      "ending tls1 \<or> started firsttv g tls1 (hist @ sent)"
      using loop_res [of ret tls1 sh1 sent] Some r by simp_all
    show ?thesis
    proof (cases ret)
      case True
      then have "per_packet fuel env g tid ptv (tls, sh) = Some (tls1, sh1, sent, False)"
        using False s0 Some r by (simp add: per_packet_def)
      then show ?thesis using l1 by (auto simp: worker_inv_def)
    next
      case nret: False
      obtain tls2 ok where o: "open_interim env tls1 = (tls2, ok)" by (cases "open_interim env tls1")
      note f = open_interim_fields [OF o]
      have l2: "ending tls2 \<or> started firsttv g tls2 (hist @ sent)"
        using l1(2) f started_fields [of tls2 tls1 firsttv g "hist @ sent"] by auto
      have l3: "ending (tls2\<lparr>last_ts := word_of_int ptv\<rparr>) \<or>
                started firsttv g (tls2\<lparr>last_ts := word_of_int ptv\<rparr>) (hist @ sent)"
        using l2 started_fields [of "tls2\<lparr>last_ts := word_of_int ptv\<rparr>" tls2 firsttv g "hist @ sent"]
        by auto
      have "\<exists>tls' sh' w. per_packet fuel env g tid ptv (tls, sh) = Some (tls', sh', sent, w) \<and>
              (tls' = tls2 \<or> tls' = tls2\<lparr>last_ts := word_of_int ptv\<rparr>)"
        using False s0 Some r nret o by (cases ok) (auto simp: per_packet_def)
      then show ?thesis using l1(1) l2 l3 by (auto simp: worker_inv_def)
    qed
  qed
qed


lemma run_packets_inv:
  assumes "interval g \<noteq> 0" and "0 < firsttv" and "firsttv + uint (interval g) < 2 ^ 32"
    and "\<forall>(env, ptv)\<in>set pkts.
           first_packet env = Some firsttv \<and> 0 \<le> ptv \<and> ptv + uint (interval g) < 2 ^ 32"
    and "worker_inv firsttv g tls sent"
  shows "(\<forall>tls' sh' sent'. run_packets fuel g tid pkts (tls, sh) sent = Some (tls', sh', sent') \<longrightarrow>
            worker_inv firsttv g tls' sent') \<and>
         ((\<forall>(env, ptv)\<in>set pkts. nat ptv < fuel) \<longrightarrow>
            run_packets fuel g tid pkts (tls, sh) sent \<noteq> None)"
  using assms(4,5)
proof (induction pkts arbitrary: tls sh sent)
  case Nil
  then show ?case by simp
next
  case (Cons p pkts)
  obtain env ptv where p: "p = (env, ptv)" by (cases p)
  have hp: "first_packet env = Some firsttv" "0 \<le> ptv" "ptv + uint (interval g) < 2 ^ 32"
    using Cons.prems(1) p by auto
  have rest: "\<forall>(env, ptv)\<in>set pkts.
           first_packet env = Some firsttv \<and> 0 \<le> ptv \<and> ptv + uint (interval g) < 2 ^ 32"
    using Cons.prems(1) by simp
  note pp = per_packet_inv [OF assms(1-3) hp Cons.prems(2), of fuel tid sh]
  show ?case
  proof (cases "per_packet fuel env g tid ptv (tls, sh)")
    case None
    then have "\<not> nat ptv < fuel" using pp by blast
    then show ?thesis using None p by simp
  next
    case (Some r)
    obtain tls1 sh1 msgs w where r: "r = (tls1, sh1, msgs, w)" by (cases r)
    have inv1: "worker_inv firsttv g tls1 (sent @ msgs)" using pp Some r by blast
    have step: "run_packets fuel g tid (p # pkts) (tls, sh) sent =
                run_packets fuel g tid pkts (tls1, sh1) (sent @ msgs)"
      using Some r p by simp
    from Cons.IH [OF rest inv1, of sh1] show ?thesis unfolding step by simp
  qed
qed

definition sent_messages ::
  "(wdcap_local \<times> shared_flags \<times> wdcap_message list) option \<Rightarrow> wdcap_message list" where
  "sent_messages r = (case r of None \<Rightarrow> [] | Some (tls, sh, sent) \<Rightarrow> sent)"

definition reported_timestamps ::
  "(wdcap_local \<times> shared_flags \<times> wdcap_message list) option \<Rightarrow> int list" where
  "reported_timestamps r = map (\<lambda>m. uint (msg_timestamp m)) (sent_messages r)"

definition interval_start :: "wdcap_local option \<Rightarrow> (int \<times> int) option" where
  "interval_start r =
     (case r of None \<Rightarrow> None
      | Some tls \<Rightarrow> Some (uint (current_interval_time tls), uint (next_report tls)))"

text \<open>
  Claim C1, as the program has it. For an interval length other than 0 and a first
  packet at second \<open>firsttv\<close> (positive, and with the interval length below \<open>2 ^ 32\<close>), a
  thread that has no interval yet takes \<open>firsttv\<close> itself as the time of its current
  interval and \<open>firsttv - firsttv mod interval + interval\<close> as its next boundary. Over any
  sequence of packets whose seconds, with the interval length, stay below \<open>2 ^ 32\<close>, the
  first timestamp the thread reports is \<open>firsttv\<close> and every later one is a multiple of the
  interval length; and the callback returns for each packet (the rounds granted to the
  loop suffice when they exceed the packet's seconds).
\<close>

theorem first_interval_and_reported_timestamps:
  assumes "interval g \<noteq> 0" and "0 < firsttv" and "firsttv + uint (interval g) < 2 ^ 32"
    and "\<forall>(env, ptv)\<in>set pkts.
           first_packet env = Some firsttv \<and> 0 \<le> ptv \<and> ptv + uint (interval g) < 2 ^ 32"
  shows "(\<forall>env. first_packet env = Some firsttv \<longrightarrow>
            interval_start (start_first_interval env g (init_wdcap_thread_data w)) =
              Some (firsttv, firsttv - firsttv mod uint (interval g) + uint (interval g))) \<and>
         reported_ok firsttv g
           (sent_messages (run_packets fuel g tid pkts (init_wdcap_thread_data w, sh) [])) \<and>
         ((\<forall>(env, ptv)\<in>set pkts. nat ptv < fuel) \<longrightarrow>
            run_packets fuel g tid pkts (init_wdcap_thread_data w, sh) [] \<noteq> None)"
proof -
  let ?tls = "init_wdcap_thread_data w"
  have z: "current_interval_time ?tls = 0" by (simp add: init_wdcap_thread_data_def)
  have a: "interval_start (start_first_interval env g ?tls) =
              Some (firsttv, firsttv - firsttv mod uint (interval g) + uint (interval g))"
    if "first_packet env = Some firsttv" for env
    using start_first_interval_fresh [OF assms(1-3) that z] by (auto simp: interval_start_def)
  have inv0: "worker_inv firsttv g ?tls []"
    by (simp add: worker_inv_def reported_ok_def z)
  note run = run_packets_inv [OF assms(1-4) inv0, of fuel tid sh]
  have b: "reported_ok firsttv g (sent_messages (run_packets fuel g tid pkts (?tls, sh) []))"
  proof (cases "run_packets fuel g tid pkts (?tls, sh) []")
    case None
    then show ?thesis by (simp add: sent_messages_def reported_ok_def)
  next
    case (Some r)
    obtain tls' sh' sent where "r = (tls', sh', sent)" by (cases r)
    then show ?thesis using run Some by (auto simp: sent_messages_def worker_inv_def)
  qed
  show ?thesis using a b run by blast
qed

text \<open>
  A thread whose capture starts at second 1700000001 with intervals of 60 seconds: the
  aligned start would be 1699999980. Its own packets arrive at seconds 1700000045 and
  1700000130.
\<close>

definition first_env :: packet_env where
  "first_env =
     \<lparr>first_packet = Some 1700000001, restart_requested = False,
      thread_statistics = zero_stat, zmq_send = (\<lambda>m. True),
      interim_name = (\<lambda>ts. Some ''/trace--0''), start_writer = (\<lambda>name. 5),
      fast_write = True\<rparr>"

definition no_flags :: shared_flags where
  "no_flags = \<lparr>corsaro_halted = False, threads_ended = 0\<rparr>"

lemmas packet_eval =
  run_packets.simps per_packet_def start_first_interval_def interval_rollover.simps
  open_interim_def init_wdcap_thread_data_def first_env_def no_flags_def demo_glob_def
  reported_timestamps_def sent_messages_def interval_start_def Let_def smod_int_alt_def

theorem first_interval_not_aligned_counterexample:
  "interval_start (start_first_interval first_env demo_glob (init_wdcap_thread_data (Some (-1))))
     = Some (1700000001, 1700000040) \<and>
   (1700000001 :: int) - 1700000001 mod uint (interval demo_glob) = 1699999980 \<and>
   reported_timestamps
     (run_packets 10 demo_glob 0 [(first_env, 1700000045)]
        (init_wdcap_thread_data (Some (-1)), no_flags) []) = [1700000001] \<and>
   \<not> uint (interval demo_glob) dvd 1700000001"
  by (simp add: packet_eval)

lemma first_env_run:
  "reported_timestamps
     (run_packets 10 demo_glob 0 [(first_env, 1700000045), (first_env, 1700000130)]
        (init_wdcap_thread_data (Some (-1)), no_flags) [])
   = [1700000001, 1700000040]"
  by (simp add: packet_eval)

theorem first_interval_and_reported_timestamps_witness:
  "interval demo_glob \<noteq> 0 \<and> (0 :: int) < 1700000001 \<and>
   1700000001 + uint (interval demo_glob) < 2 ^ 32 \<and>
   interval_start (start_first_interval first_env demo_glob (init_wdcap_thread_data (Some (-1))))
     = Some (1700000001, 1700000040) \<and>
   reported_ok 1700000001 demo_glob
     (sent_messages
        (run_packets 10 demo_glob 0 [(first_env, 1700000045), (first_env, 1700000130)]
           (init_wdcap_thread_data (Some (-1)), no_flags) [])) \<and>
   reported_timestamps
     (run_packets 10 demo_glob 0 [(first_env, 1700000045), (first_env, 1700000130)]
        (init_wdcap_thread_data (Some (-1)), no_flags) [])
   = [1700000001, 1700000040]"
proof -
  have h1: "interval demo_glob \<noteq> 0" by (simp add: demo_glob_def)
  have h2: "(0 :: int) < 1700000001" by simp
  have h3: "1700000001 + uint (interval demo_glob) < 2 ^ 32" by (simp add: demo_glob_def)
  have h4: "\<forall>(env, ptv)\<in>set [(first_env, 1700000045), (first_env, 1700000130)].
              first_packet env = Some 1700000001 \<and> 0 \<le> ptv \<and> ptv + uint (interval demo_glob) < 2 ^ 32"
    by (simp add: first_env_def demo_glob_def)
  have f: "first_packet first_env = Some 1700000001" by (simp add: first_env_def)
  note t = first_interval_and_reported_timestamps [OF h1 h2 h3 h4, of "Some (-1)" 10 0 no_flags]
  have a: "interval_start (start_first_interval first_env demo_glob (init_wdcap_thread_data (Some (-1))))
     = Some (1700000001, 1700000040)"
    using t f by (simp add: demo_glob_def)
  have b: "reported_ok 1700000001 demo_glob
     (sent_messages
        (run_packets 10 demo_glob 0 [(first_env, 1700000045), (first_env, 1700000130)]
           (init_wdcap_thread_data (Some (-1)), no_flags) []))"
    using t by blast
  show ?thesis using h1 h2 h3 a b first_env_run by blast
qed

end
